theory Spec2Isabelle
  imports Complex_Main "HOL-Library.Log_Nat"
begin

section \<open>Machine integers\<close>

text \<open>
  Go's \<open>int64\<close> (and \<open>int\<close> on a 64-bit platform) is modelled as \<open>int\<close> with the
  two's-complement wrap-around written out: every addition and subtraction of the
  source is followed by \<open>i64\<close>.
\<close>

definition i64 :: "int \<Rightarrow> int" where
  "i64 x = (x + 2 ^ 63) mod 2 ^ 64 - 2 ^ 63"

definition in_i64 :: "int \<Rightarrow> bool" where
  "in_i64 x = (- (2 ^ 63) \<le> x \<and> x < 2 ^ 63)"

section \<open>Exit codes (package core)\<close>

datatype ErrorCategory =
  CategoryRetryable | CategoryFatal | CategoryConfiguration
  | CategoryAuth | CategoryResource | CategoryUser

record ExitCodeInfo =
  Code :: int
  Category :: ErrorCategory
  Description :: string
  Retryable :: bool
  Suggestion :: string

definition ExitSuccess :: int where "ExitSuccess = 0"
definition ExitGeneralError :: int where "ExitGeneralError = 1"
definition ExitConfigError :: int where "ExitConfigError = 10"
definition ExitAuthError :: int where "ExitAuthError = 11"
definition ExitNetworkError :: int where "ExitNetworkError = 12"
definition ExitSourceNotFound :: int where "ExitSourceNotFound = 20"
definition ExitDestNotWritable :: int where "ExitDestNotWritable = 21"
definition ExitPermissionDenied :: int where "ExitPermissionDenied = 22"
definition ExitInsufficientSpace :: int where "ExitInsufficientSpace = 23"
definition ExitTransferFailed :: int where "ExitTransferFailed = 30"
definition ExitChecksumMismatch :: int where "ExitChecksumMismatch = 31"
definition ExitPartialTransfer :: int where "ExitPartialTransfer = 32"
definition ExitEngineNotFound :: int where "ExitEngineNotFound = 40"
definition ExitUnsupportedProtocol :: int where "ExitUnsupportedProtocol = 41"
definition ExitInvalidStrategy :: int where "ExitInvalidStrategy = 42"
definition ExitUserCanceled :: int where "ExitUserCanceled = 50"
definition ExitTimeout :: int where "ExitTimeout = 51"
definition ExitQuotaExceeded :: int where "ExitQuotaExceeded = 52"

lemmas exit_code_defs =
  ExitSuccess_def ExitGeneralError_def ExitConfigError_def ExitAuthError_def
  ExitNetworkError_def ExitSourceNotFound_def ExitDestNotWritable_def
  ExitPermissionDenied_def ExitInsufficientSpace_def ExitTransferFailed_def
  ExitChecksumMismatch_def ExitPartialTransfer_def ExitEngineNotFound_def
  ExitUnsupportedProtocol_def ExitInvalidStrategy_def ExitUserCanceled_def
  ExitTimeout_def ExitQuotaExceeded_def

definition mkInfo :: "int \<Rightarrow> ErrorCategory \<Rightarrow> string \<Rightarrow> bool \<Rightarrow> string \<Rightarrow> ExitCodeInfo" where
  "mkInfo c cat d r s =
     \<lparr>Code = c, Category = cat, Description = d, Retryable = r, Suggestion = s\<rparr>"

text \<open>
  The map literal \<open>ExitCodeRegistry\<close>, entry by entry in the order of the source.
  It has no entry for \<open>ExitGeneralError\<close> (1) nor for \<open>ExitInvalidStrategy\<close> (42).
\<close>

definition ExitCodeRegistry :: "(int \<times> ExitCodeInfo) list" where
  "ExitCodeRegistry =
   [(ExitSuccess, mkInfo ExitSuccess CategoryUser
       ''Operation completed successfully'' False ''''),
    (ExitConfigError, mkInfo ExitConfigError CategoryConfiguration
       ''Configuration error'' False
       ''Check configuration file syntax and required fields''),
    (ExitAuthError, mkInfo ExitAuthError CategoryAuth
       ''Authentication failed'' False
       ''Verify credentials and access permissions''),
    (ExitNetworkError, mkInfo ExitNetworkError CategoryRetryable
       ''Network error'' True
       ''Check network connectivity and retry''),
    (ExitSourceNotFound, mkInfo ExitSourceNotFound CategoryFatal
       ''Source path not found'' False
       ''Verify source path exists and is accessible''),
    (ExitDestNotWritable, mkInfo ExitDestNotWritable CategoryFatal
       ''Destination not writable'' False
       ''Check destination permissions and path validity''),
    (ExitPermissionDenied, mkInfo ExitPermissionDenied CategoryAuth
       ''Permission denied'' False
       ''Verify user has required permissions''),
    (ExitInsufficientSpace, mkInfo ExitInsufficientSpace CategoryResource
       ''Insufficient disk space'' False
       ''Free up space at destination or use different location''),
    (ExitTransferFailed, mkInfo ExitTransferFailed CategoryRetryable
       ''Transfer failed'' True
       ''Retry with checkpoint enabled to resume from failure point''),
    (ExitChecksumMismatch, mkInfo ExitChecksumMismatch CategoryFatal
       ''Checksum verification failed'' True
       ''Data corruption detected, retry transfer''),
    (ExitPartialTransfer, mkInfo ExitPartialTransfer CategoryRetryable
       ''Partial transfer (some files failed)'' True
       ''Review failed files and retry''),
    (ExitEngineNotFound, mkInfo ExitEngineNotFound CategoryConfiguration
       ''Transfer engine not found'' False
       ''Install required transfer engine (rclone, rsync, etc.)''),
    (ExitUnsupportedProtocol, mkInfo ExitUnsupportedProtocol CategoryConfiguration
       ''Protocol not supported'' False
       ''Use different strategy or install engine with protocol support''),
    (ExitUserCanceled, mkInfo ExitUserCanceled CategoryUser
       ''Operation canceled by user'' False ''''),
    (ExitTimeout, mkInfo ExitTimeout CategoryRetryable
       ''Operation timed out'' True
       ''Increase timeout or check for hanging processes''),
    (ExitQuotaExceeded, mkInfo ExitQuotaExceeded CategoryResource
       ''Quota or rate limit exceeded'' True
       ''Wait for quota reset or increase limits'')]"

definition GetExitCodeInfo :: "int \<Rightarrow> ExitCodeInfo" where
  "GetExitCodeInfo code =
     (case map_of ExitCodeRegistry code of
        Some info \<Rightarrow> info
      | None \<Rightarrow> mkInfo code CategoryFatal ''Unknown error'' False
          ''Check logs for details'')"

definition IsRetryable :: "int \<Rightarrow> bool" where
  "IsRetryable code = Retryable (GetExitCodeInfo code)"

definition documented_codes :: "int list" where
  "documented_codes = [0, 1, 10, 11, 12, 20, 21, 22, 23, 30, 31, 32, 40, 41, 42, 50, 51, 52]"

section \<open>Manifest and batches (package batch)\<close>

text \<open>
  Go errors are modelled by their message (\<open>fmt.Errorf\<close> with \<open>%w\<close> prefixes the
  message of the wrapped error); a fallible function returns \<open>string + 'a\<close> with
  \<open>Inl\<close> the error. Timestamps and the never-populated checksum field are left out
  of the records; mutexes guard single field accesses and have no sequential effect.
\<close>

record Batch =
  ID :: int
  Files :: "string list"
  Size :: int
  FileCount :: int
  Status :: string
  LocalPath :: string
  Error :: string

record Manifest =
  ManifestID :: string
  Source :: string
  Destination :: string
  TotalFiles :: int
  TotalSize :: int
  ManifestChunkSizeMB :: int
  Batches :: "Batch list"
  ManifestStatus :: string

record Config =
  ChunkSizeMB :: int
  SourceWorkers :: int
  DestWorkers :: int
  BufferEnabled :: bool
  BufferPath :: string
  BufferMaxSizeGB :: int
  CleanupBuffer :: bool
  KeepOnFailure :: bool
  CheckpointPath :: string
  CheckpointEnabled :: bool

definition DefaultConfig :: Config where
  "DefaultConfig =
     \<lparr>ChunkSizeMB = 50, SourceWorkers = 4, DestWorkers = 2, BufferEnabled = True,
      BufferPath = ''/tmp/difpipe-buffer'', BufferMaxSizeGB = 100, CleanupBuffer = True,
      KeepOnFailure = True, CheckpointPath = ''/tmp/difpipe-checkpoint.json'',
      CheckpointEnabled = True\<rparr>"

text \<open>
  \<open>NewManifest\<close> derives the id from the clock (\<open>manifest-\<close> followed by the Unix time in nanoseconds); the id is
  a parameter here.
\<close>

definition NewManifest :: "string \<Rightarrow> string \<Rightarrow> string \<Rightarrow> int \<Rightarrow> Manifest" where
  "NewManifest mid source destination chunkSizeMB =
     \<lparr>ManifestID = mid, Source = source, Destination = destination,
      TotalFiles = 0, TotalSize = 0, ManifestChunkSizeMB = chunkSizeMB,
      Batches = [], ManifestStatus = ''pending''\<rparr>"

text \<open>
  \<open>AddBatch\<close> appends the new batch and adds to both totals; the pointer the source
  returns is the last element of \<open>Batches\<close> of the result.
\<close>

definition AddBatch :: "Manifest \<Rightarrow> string list \<Rightarrow> int \<Rightarrow> Manifest" where
  "AddBatch m fs sz =
     (let batch = \<lparr>ID = int (length (Batches m)), Files = fs, Size = sz,
                     FileCount = int (length fs), Status = ''pending'',
                     LocalPath = '''', Error = ''''\<rparr>
      in m\<lparr>Batches := Batches m @ [batch],
           TotalFiles := i64 (TotalFiles m + int (length fs)),
           TotalSize := i64 (TotalSize m + sz)\<rparr>)"

text \<open>A sequence of \<open>AddBatch\<close> calls on a manifest, as the loop of \<open>CreateManifest\<close> runs it.\<close>

fun AddBatches :: "Manifest \<Rightarrow> (string list \<times> int) list \<Rightarrow> Manifest" where
  "AddBatches m [] = m"
| "AddBatches m ((fs, sz) # calls) = AddBatches (AddBatch m fs sz) calls"

section \<open>Manifest builder (package batch)\<close>

record FileInfo =
  Path :: string
  FileSize :: int

record batchInfo =
  files :: "string list"
  size :: int

definition emptyBatch :: batchInfo where
  "emptyBatch = \<lparr>files = [], size = 0\<rparr>"

text \<open>
  The loop of \<open>binPackFiles\<close>: the accumulators are the sealed batches and the
  current batch. The guard is the source's: the accumulated size is positive and the
  (64-bit) sum with the next file exceeds the target.
\<close>

fun binPackLoop :: "int \<Rightarrow> FileInfo list \<Rightarrow> batchInfo list \<Rightarrow> batchInfo \<Rightarrow> batchInfo list \<times> batchInfo" where
  "binPackLoop targetSize [] batches currentBatch = (batches, currentBatch)"
| "binPackLoop targetSize (file # rest) batches currentBatch =
     (if size currentBatch > 0 \<and> i64 (size currentBatch + FileSize file) > targetSize
      then binPackLoop targetSize rest (batches @ [currentBatch])
             \<lparr>files = [] @ [Path file], size = i64 (0 + FileSize file)\<rparr>
      else binPackLoop targetSize rest batches
             \<lparr>files = files currentBatch @ [Path file],
              size = i64 (size currentBatch + FileSize file)\<rparr>)"

definition targetSizeOf :: "Config \<Rightarrow> int" where
  "targetSizeOf config = i64 (i64 (ChunkSizeMB config * 1024) * 1024)"

definition binPackFiles :: "Config \<Rightarrow> FileInfo list \<Rightarrow> batchInfo list" where
  "binPackFiles config fs =
     (case binPackLoop (targetSizeOf config) fs [] emptyBatch of
        (batches, currentBatch) \<Rightarrow>
          if length (files currentBatch) > 0 then batches @ [currentBatch] else batches)"


text \<open>
  Two packing rules on the files themselves, with unbounded sums. \<open>packGroups\<close> and
  \<open>groupsOf\<close> seal the current group when its accumulated size is positive and
  adding the next file would exceed the budget. \<open>spec_packLoop\<close> and \<open>spec_pack\<close>
  follow the wording of the specification: the current batch is sealed when it is
  non-empty and adding the next file would exceed the budget.
\<close>

definition sizeOf :: "FileInfo list \<Rightarrow> int" where
  "sizeOf g = sum_list (map FileSize g)"

definition toBatchInfo :: "FileInfo list \<Rightarrow> batchInfo" where
  "toBatchInfo g = \<lparr>files = map Path g, size = sizeOf g\<rparr>"

fun packGroups :: "int \<Rightarrow> FileInfo list \<Rightarrow> FileInfo list list \<Rightarrow> FileInfo list \<Rightarrow> FileInfo list list \<times> FileInfo list" where
  "packGroups C [] sealed cur = (sealed, cur)"
| "packGroups C (f # rest) sealed cur =
     (if sizeOf cur > 0 \<and> sizeOf cur + FileSize f > C
      then packGroups C rest (sealed @ [cur]) [f]
      else packGroups C rest sealed (cur @ [f]))"

fun spec_packLoop :: "int \<Rightarrow> FileInfo list \<Rightarrow> FileInfo list list \<Rightarrow> FileInfo list \<Rightarrow> FileInfo list list \<times> FileInfo list" where
  "spec_packLoop C [] sealed cur = (sealed, cur)"
| "spec_packLoop C (f # rest) sealed cur =
     (if cur \<noteq> [] \<and> sizeOf cur + FileSize f > C
      then spec_packLoop C rest (sealed @ [cur]) [f]
      else spec_packLoop C rest sealed (cur @ [f]))"

definition spec_pack :: "int \<Rightarrow> FileInfo list \<Rightarrow> FileInfo list list" where
  "spec_pack C fs =
     (case spec_packLoop C fs [] [] of
        (sealed, cur) \<Rightarrow> if cur \<noteq> [] then sealed @ [cur] else sealed)"

definition bigLast :: "int \<Rightarrow> FileInfo list \<Rightarrow> bool" where
  "bigLast C g =
     (\<forall>j < length g. C < FileSize (g ! j) \<and> 0 < FileSize (g ! j)
         \<longrightarrow> Suc j = length g \<and> sizeOf g = FileSize (g ! j))"

definition consecutive :: "int \<Rightarrow> FileInfo list list \<Rightarrow> bool" where
  "consecutive C gs =
     (\<forall>i. Suc i < length gs \<longrightarrow> sizeOf (gs ! i) + FileSize (hd (gs ! Suc i)) > C)"

definition pack_inv :: "int \<Rightarrow> FileInfo list list \<Rightarrow> FileInfo list \<Rightarrow> bool" where
  "pack_inv C sealed cur =
     (consecutive C sealed \<and> (\<forall>g \<in> set sealed. g \<noteq> []) \<and>
      (\<forall>g \<in> set sealed. bigLast C g) \<and> bigLast C cur \<and>
      (sealed \<noteq> [] \<longrightarrow> cur \<noteq> [] \<and> sizeOf (last sealed) + FileSize (hd cur) > C))"


text \<open>
  No seal is due inside a group: before none of its files but the first were the
  files accumulated so far of positive size and over the budget with that file.
\<close>

definition unsealed_inside :: "int \<Rightarrow> FileInfo list \<Rightarrow> bool" where
  "unsealed_inside C g =
     (\<forall>j. 0 < j \<and> j < length g \<longrightarrow>
        \<not> (sizeOf (take j g) > 0 \<and> sizeOf (take j g) + FileSize (g ! j) > C))"

definition groupsOf :: "int \<Rightarrow> FileInfo list \<Rightarrow> FileInfo list list" where
  "groupsOf C fs =
     (case packGroups C fs [] [] of
        (sealed, cur) \<Rightarrow> if cur \<noteq> [] then sealed @ [cur] else sealed)"


definition scenario_files :: "FileInfo list" where
  "scenario_files =
     [\<lparr>Path = ''file1.txt'', FileSize = 5242880\<rparr>,
      \<lparr>Path = ''file2.txt'', FileSize = 3145728\<rparr>,
      \<lparr>Path = ''file3.txt'', FileSize = 7340032\<rparr>,
      \<lparr>Path = ''file4.txt'', FileSize = 2097152\<rparr>,
      \<lparr>Path = ''file5.txt'', FileSize = 15728640\<rparr>,
      \<lparr>Path = ''file6.txt'', FileSize = 1048576\<rparr>]"

definition zero_then_big :: "FileInfo list" where
  "zero_then_big =
     [\<lparr>Path = ''empty.txt'', FileSize = 0\<rparr>,
      \<lparr>Path = ''big.bin'', FileSize = 2097152\<rparr>]"


section \<open>Location parsing\<close>

text \<open>
  Go strings are byte sequences and so are \<open>string\<close>s here. The helpers are the
  \<open>strings\<close> functions at the separators the parsers use (a single byte each):
  \<open>Index\<close> is the position of the first occurrence or \<open>-1\<close>, \<open>slice s a b\<close> is
  \<open>s[a:b]\<close>, \<open>sliceFrom s a\<close> is \<open>s[a:]\<close>, and \<open>SplitN2 s c\<close> is
  \<open>strings.SplitN(s, c, 2)\<close>.
\<close>

definition Contains :: "string \<Rightarrow> char \<Rightarrow> bool" where
  "Contains s c = (c \<in> set s)"

definition Index :: "string \<Rightarrow> char \<Rightarrow> int" where
  "Index s c = (if c \<in> set s then int (length (takeWhile (\<lambda>x. x \<noteq> c) s)) else - 1)"

definition HasPrefix :: "string \<Rightarrow> string \<Rightarrow> bool" where
  "HasPrefix s p = (take (length p) s = p)"

definition slice :: "string \<Rightarrow> int \<Rightarrow> int \<Rightarrow> string" where
  "slice s a b = take (nat (b - a)) (drop (nat a) s)"

definition sliceFrom :: "string \<Rightarrow> int \<Rightarrow> string" where
  "sliceFrom s a = drop (nat a) s"

definition SplitN2 :: "string \<Rightarrow> char \<Rightarrow> string list" where
  "SplitN2 s c =
     (if c \<in> set s
      then [takeWhile (\<lambda>x. x \<noteq> c) s, drop 1 (dropWhile (\<lambda>x. x \<noteq> c) s)]
      else [s])"

text \<open>
  \<open>parseLocation\<close> of the manifest builder returns \<open>(host, path, err)\<close>; every
  return statement of the source has a nil error.
\<close>

definition parseLocation :: "string \<Rightarrow> string + (string \<times> string)" where
  "parseLocation location =
     (if Contains location CHR ''@'' \<and> Contains location CHR '':''
         \<and> Index location CHR '':'' > Index location CHR ''@''
      then Inr (slice location (Index location CHR ''@'' + 1) (Index location CHR '':''),
                sliceFrom location (Index location CHR '':'' + 1))
      else if Contains location CHR '':'' \<and> \<not> HasPrefix location ''/''
              \<and> length (SplitN2 location CHR '':'') = 2
      then Inr (SplitN2 location CHR '':'' ! 0, SplitN2 location CHR '':'' ! 1)
      else Inr ([], location))"

record RemoteLocation =
  User :: string
  Host :: string
  Port :: int
  RemotePath :: string

text \<open>
  \<open>ParseRemotePath\<close> of package core: the first \<open>@\<close>, then the first \<open>:\<close> after
  it; the three emptiness checks come last, in the order user, host, path.
\<close>

definition IndexAfter :: "string \<Rightarrow> int \<Rightarrow> char \<Rightarrow> int" where
  "IndexAfter s start c =
     (if c \<in> set (sliceFrom s start)
      then start + int (length (takeWhile (\<lambda>x. x \<noteq> c) (sliceFrom s start)))
      else - 1)"

definition ParseRemotePath :: "string \<Rightarrow> string + RemoteLocation" where
  "ParseRemotePath remotePath =
     (let atIndex = Index remotePath CHR ''@'' in
      if atIndex = - 1
      then Inl (''invalid remote path format: expected user@host:path, got '' @ remotePath)
      else
        let colonIndex = IndexAfter remotePath (atIndex + 1) CHR '':'' in
        if colonIndex = - 1
        then Inl (''invalid remote path format: expected user@host:path, got '' @ remotePath)
        else
          let location = \<lparr>User = slice remotePath 0 atIndex,
                          Host = slice remotePath (atIndex + 1) colonIndex,
                          Port = 22,
                          RemotePath = sliceFrom remotePath (colonIndex + 1)\<rparr> in
          if User location = [] then Inl ''user is empty''
          else if Host location = [] then Inl ''host is empty''
          else if RemotePath location = [] then Inl ''path is empty''
          else Inr location)"

section \<open>Buffer manager\<close>

record BufferManager =
  path :: string
  maxSize :: int
  currentSize :: int
  initialized :: bool

definition NewBufferManager :: "Config \<Rightarrow> BufferManager" where
  "NewBufferManager config =
     \<lparr>path = BufferPath config,
      maxSize = i64 (i64 (i64 (BufferMaxSizeGB config * 1024) * 1024) * 1024),
      currentSize = 0, initialized = False\<rparr>"

text \<open>
  \<open>ReserveSpace\<close> loads the counter, returns false when the 64-bit sum exceeds the
  maximum, and otherwise compare-and-swaps the sum in, retrying from the load when the
  swap fails. A failed swap changes nothing, and a successful swap finds the counter
  equal to the value loaded, so the call takes effect as one atomic step at its last
  load: that step is the model. It returns the result and the manager after the call.
\<close>

definition ReserveSpace :: "BufferManager \<Rightarrow> int \<Rightarrow> bool \<times> BufferManager" where
  "ReserveSpace bm sz =
     (let current = currentSize bm in
      if i64 (current + sz) > maxSize bm then (False, bm)
      else (True, bm\<lparr>currentSize := i64 (current + sz)\<rparr>))"

definition ReleaseSpace :: "BufferManager \<Rightarrow> int \<Rightarrow> BufferManager" where
  "ReleaseSpace bm sz = bm\<lparr>currentSize := i64 (currentSize bm + i64 (- sz))\<rparr>"

text \<open>
  \<open>Cleanup\<close> removes the manifest's directory and, unless the removal fails, stores
  0 in the counter; \<open>removeErr\<close> is the error of \<open>os.RemoveAll\<close> when there is one
  that is not a not-exist error, and \<open>None\<close> otherwise.
  \<open>DeleteBatch\<close> likewise releases unless \<open>os.Remove\<close> fails with an error other
  than not-exist.
\<close>

definition Cleanup :: "BufferManager \<Rightarrow> string option \<Rightarrow> string option \<times> BufferManager" where
  "Cleanup bm removeErr =
     (case removeErr of
        Some err \<Rightarrow> (Some (''cleanup buffer: '' @ err), bm)
      | None \<Rightarrow> (None, bm\<lparr>currentSize := 0\<rparr>))"

definition DeleteBatch :: "BufferManager \<Rightarrow> string option \<Rightarrow> int \<Rightarrow> string option \<times> BufferManager" where
  "DeleteBatch bm removeErr sz =
     (case removeErr of
        Some err \<Rightarrow> (Some (''delete batch: '' @ err), bm)
      | None \<Rightarrow> (None, ReleaseSpace bm sz))"

text \<open>A run of buffer operations, in the order in which they take effect.\<close>

datatype buffer_op =
  Reserve int | Release int | CleanupOp "string option" | Delete "string option" int

fun apply_buffer_op :: "BufferManager \<Rightarrow> buffer_op \<Rightarrow> BufferManager" where
  "apply_buffer_op bm (Reserve n) = snd (ReserveSpace bm n)"
| "apply_buffer_op bm (Release n) = ReleaseSpace bm n"
| "apply_buffer_op bm (CleanupOp removeErr) = snd (Cleanup bm removeErr)"
| "apply_buffer_op bm (Delete removeErr n) = snd (DeleteBatch bm removeErr n)"

text \<open>The states a run passes through, the initial one first.\<close>

fun buffer_trace :: "BufferManager \<Rightarrow> buffer_op list \<Rightarrow> BufferManager list" where
  "buffer_trace bm [] = [bm]"
| "buffer_trace bm (op # ops) = bm # buffer_trace (apply_buffer_op bm op) ops"

text \<open>
  The arguments of a run are well-formed when every released amount is non-negative
  and its subtraction from the counter stays in the 64-bit range. Nothing is asked of
  the reserved amounts.
\<close>

fun op_in_range :: "BufferManager \<Rightarrow> buffer_op \<Rightarrow> bool" where
  "op_in_range bm (Reserve n) = True"
| "op_in_range bm (Release n) = (0 \<le> n \<and> in_i64 (currentSize bm - n))"
| "op_in_range bm (CleanupOp removeErr) = True"
| "op_in_range bm (Delete removeErr n) =
     (removeErr \<noteq> None \<or> 0 \<le> n \<and> in_i64 (currentSize bm - n))"

fun run_in_range :: "BufferManager \<Rightarrow> buffer_op list \<Rightarrow> bool" where
  "run_in_range bm [] = True"
| "run_in_range bm (op # ops) =
     (op_in_range bm op \<and> run_in_range (apply_buffer_op bm op) ops)"

section \<open>CreateManifest and Transfer\<close>

text \<open>
  \<open>enumerateFiles\<close> runs \<open>find\<close> at the source, locally or over ssh, and parses its
  output; its outcome is a parameter: an error, or the files in enumeration order.
\<close>

definition CreateManifest ::
  "Config \<Rightarrow> string \<Rightarrow> (string \<Rightarrow> string \<Rightarrow> string + FileInfo list) \<Rightarrow> string \<Rightarrow> string
     \<Rightarrow> string + Manifest" where
  "CreateManifest config mid enumerateFiles source destination =
     (case parseLocation source of
        Inl err \<Rightarrow> Inl (''parse source: '' @ err)
      | Inr (sourceHost, sourcePath) \<Rightarrow>
          (case enumerateFiles sourceHost sourcePath of
             Inl err \<Rightarrow> Inl (''enumerate files: '' @ err)
           | Inr fs \<Rightarrow>
               if length fs = 0 then Inl ''no files found at source''
               else Inr (AddBatches (NewManifest mid source destination (ChunkSizeMB config))
                           (map (\<lambda>b. (files b, size b)) (binPackFiles config fs)))))"

text \<open>
  \<open>Transfer\<close> of the batched engine. The environment supplies what the function
  obtains from outside: the manifest id, the enumeration, the outcome of creating the
  buffer directory, the run of the worker pools under \<open>coordinateTransfer\<close> (its
  error, and the manifest and buffer manager as the run leaves them), and the outcome
  of removing the buffer directory. Checkpoint saves only print warnings and are left
  out. The result is the error (\<open>None\<close> for nil) and the engine's fields.
\<close>

record BatchedEngine =
  manifest :: "Manifest option"
  bufferMgr :: "BufferManager option"

record TransferEnv =
  manifestId :: string
  enumerate :: "string \<Rightarrow> string \<Rightarrow> string + FileInfo list"
  mkdirError :: "string option"
  runPipeline :: "Manifest \<Rightarrow> BufferManager \<Rightarrow> string option \<times> Manifest \<times> BufferManager"
  removeAllErr :: "string option"

definition NewBatchedEngine :: BatchedEngine where
  "NewBatchedEngine = \<lparr>manifest = None, bufferMgr = None\<rparr>"

definition Initialize :: "BufferManager \<Rightarrow> string option \<Rightarrow> string option \<times> BufferManager" where
  "Initialize bm mkdirErr =
     (if initialized bm then (None, bm)
      else case mkdirErr of
             Some e \<Rightarrow> (Some (''create buffer directory: '' @ e), bm)
           | None \<Rightarrow> (None, bm\<lparr>initialized := True\<rparr>))"

definition cleanup :: "Config \<Rightarrow> bool \<Rightarrow> string option \<Rightarrow> BufferManager \<Rightarrow> BufferManager" where
  "cleanup config success removeErr bm =
     (if success \<and> CleanupBuffer config then snd (Cleanup bm removeErr)
      else if \<not> success \<and> \<not> KeepOnFailure config then snd (Cleanup bm removeErr)
      else bm)"

definition Transfer ::
  "BatchedEngine \<Rightarrow> Config \<Rightarrow> TransferEnv \<Rightarrow> string \<Rightarrow> string \<Rightarrow> string option \<times> BatchedEngine" where
  "Transfer be config env source destination =
     (case CreateManifest config (manifestId env) (enumerate env) source destination of
        Inl err \<Rightarrow> (Some (''create manifest: '' @ err), be)
      | Inr m0 \<Rightarrow>
          let m1 = m0\<lparr>ManifestStatus := ''in_progress''\<rparr> in
          (case Initialize (NewBufferManager config) (mkdirError env) of
             (Some err, bm) \<Rightarrow>
               (Some (''initialize buffer: '' @ err),
                be\<lparr>manifest := Some m1, bufferMgr := Some bm\<rparr>)
           | (None, bm) \<Rightarrow>
               (case runPipeline env m1 bm of
                  (Some err, m2, bm2) \<Rightarrow>
                    (Some (''transfer failed: '' @ err),
                     be\<lparr>manifest := Some m2,
                        bufferMgr := Some (cleanup config False (removeAllErr env) bm2)\<rparr>)
                | (None, m2, bm2) \<Rightarrow>
                    (None,
                     be\<lparr>manifest := Some (m2\<lparr>ManifestStatus := ''completed''\<rparr>),
                        bufferMgr := Some (cleanup config True (removeAllErr env) bm2)\<rparr>))))"

text \<open>An environment whose enumeration finds no file.\<close>

definition empty_source_env :: TransferEnv where
  "empty_source_env =
     \<lparr>manifestId = ''manifest-1'', enumerate = (\<lambda>h p. Inr []), mkdirError = None,
      runPipeline = (\<lambda>m bm. (None, m, bm)), removeAllErr = None\<rparr>"


text \<open>The reservation bound, for a manager with a non-negative maximum.\<close>

definition within_max :: "BufferManager \<Rightarrow> bool" where
  "within_max bm = (currentSize bm \<le> maxSize bm \<and> 0 \<le> maxSize bm)"

text \<open>A run on the default configuration (maximum 100 GiB).\<close>

definition example_ops :: "buffer_op list" where
  "example_ops = [Reserve 52428800, Reserve 107374182400, Release 52428800, Reserve 1024,
                  Delete None 1000, CleanupOp None]"


section \<open>Analyzer (package analyzer)\<close>

text \<open>
  \<open>Strategy\<close> and \<open>Protocol\<close> are string types with named constants;
  \<open>StrategyUnset\<close> and \<open>ProtocolUnset\<close> stand for the zero value (the empty
  string) of a field that is never assigned.
\<close>

datatype Strategy =
  StrategyUnset | StrategyAuto | StrategyRclone | StrategyRsync | StrategyTar
  | StrategyProxy | StrategySkopeo | StrategyRestic

datatype Protocol =
  ProtocolUnset | ProtocolLocal | ProtocolSSH | ProtocolS3 | ProtocolGCS | ProtocolAzure
  | ProtocolHTTP | ProtocolFTP | ProtocolWebDAV

text \<open>
  A \<open>float64\<close> is an IEEE 754 binary64 number: a finite one is given by the rational
  number it denotes, and there are the two infinities and NaN. An operation returns
  the exact result rounded to the nearest number with a significand of 53 bits, a tie
  going to the even significand. Two things are left out. The exponent has no bound:
  the numbers computed below are conversions of 64-bit integers, their quotients and
  the products of those with 100, all within the range of normal numbers. Zero has no
  sign: a zero divisor below is the conversion of the integer 0, which is \<open>+0\<close>.
\<close>

datatype float64 = Finite rat | PosInf | NegInf | NaN

text \<open>
  For \<open>x > 0\<close>, \<open>ilog2 x\<close> is the integer \<open>E\<close> with \<open>2^E \<le> x < 2^(E+1)\<close>;
  \<open>round_even\<close> rounds to the nearest integer, a tie to the even one;
  \<open>round_float64\<close> keeps 53 significant bits.
\<close>

definition ilog2 :: "rat \<Rightarrow> int" where
  "ilog2 x = (if 1 \<le> x then bitlen \<lfloor>x\<rfloor> - 1 else - bitlen (\<lceil>1 / x\<rceil> - 1))"

definition round_even :: "rat \<Rightarrow> int" where
  "round_even x =
     (if 2 * (x - of_int \<lfloor>x\<rfloor>) < 1 then \<lfloor>x\<rfloor>
      else if 2 * (x - of_int \<lfloor>x\<rfloor>) > 1 then \<lfloor>x\<rfloor> + 1
      else if even \<lfloor>x\<rfloor> then \<lfloor>x\<rfloor> else \<lfloor>x\<rfloor> + 1)"

definition round_float64 :: "rat \<Rightarrow> rat" where
  "round_float64 x =
     (if x = 0 then 0
      else of_int (round_even (x / 2 powi (ilog2 \<bar>x\<bar> - 52))) * 2 powi (ilog2 \<bar>x\<bar> - 52))"

text \<open>The conversion \<open>float64(i)\<close>, the operators \<open>/\<close> and \<open>*\<close>, and the comparison \<open>>\<close>.\<close>

definition float64_of_int :: "int \<Rightarrow> float64" where
  "float64_of_int i = Finite (round_float64 (of_int i))"

fun fdiv :: "float64 \<Rightarrow> float64 \<Rightarrow> float64" where
  "fdiv (Finite x) (Finite y) =
     (if y = 0 then (if x = 0 then NaN else if 0 < x then PosInf else NegInf)
      else Finite (round_float64 (x / y)))"
| "fdiv (Finite x) PosInf = Finite 0"
| "fdiv (Finite x) NegInf = Finite 0"
| "fdiv PosInf (Finite y) = (if 0 \<le> y then PosInf else NegInf)"
| "fdiv NegInf (Finite y) = (if 0 \<le> y then NegInf else PosInf)"
| "fdiv _ _ = NaN"

fun fmul :: "float64 \<Rightarrow> float64 \<Rightarrow> float64" where
  "fmul (Finite x) (Finite y) = Finite (round_float64 (x * y))"
| "fmul (Finite x) PosInf = (if x = 0 then NaN else if 0 < x then PosInf else NegInf)"
| "fmul (Finite x) NegInf = (if x = 0 then NaN else if 0 < x then NegInf else PosInf)"
| "fmul PosInf (Finite y) = (if y = 0 then NaN else if 0 < y then PosInf else NegInf)"
| "fmul NegInf (Finite y) = (if y = 0 then NaN else if 0 < y then NegInf else PosInf)"
| "fmul PosInf PosInf = PosInf"
| "fmul PosInf NegInf = NegInf"
| "fmul NegInf PosInf = NegInf"
| "fmul NegInf NegInf = PosInf"
| "fmul _ _ = NaN"

fun fgt :: "float64 \<Rightarrow> float64 \<Rightarrow> bool" where
  "fgt (Finite x) (Finite y) = (y < x)"
| "fgt (Finite x) NegInf = True"
| "fgt PosInf (Finite y) = True"
| "fgt PosInf NegInf = True"
| "fgt _ _ = False"

text \<open>
  \<open>FileAnalysis\<close> without the fields the analyzer's control flow never reads (file
  types, compressibility, sample time, the reason text).
\<close>

record FileAnalysis =
  AnalysisTotalSize :: int
  AnalysisTotalFiles :: int
  AverageFileSize :: int
  SmallFiles :: int
  MediumFiles :: int
  LargeFiles :: int
  SourceProtocol :: Protocol
  DestProtocol :: Protocol
  Recommendation :: Strategy

definition zeroAnalysis :: FileAnalysis where
  "zeroAnalysis =
     \<lparr>AnalysisTotalSize = 0, AnalysisTotalFiles = 0, AverageFileSize = 0, SmallFiles = 0,
      MediumFiles = 0, LargeFiles = 0, SourceProtocol = ProtocolUnset,
      DestProtocol = ProtocolUnset, Recommendation = StrategyUnset\<rparr>"

record FileAnalyzer =
  smallFileThreshold :: int
  largeFileThreshold :: int
  manyFilesCount :: int
  smallFilePercent :: float64
  largeFilePercent :: float64
  fewFilesCount :: int
  maxSampleSize :: int

definition New :: FileAnalyzer where
  "New =
     \<lparr>smallFileThreshold = 10 * 1024, largeFileThreshold = 100 * 1024 * 1024,
      manyFilesCount = 1000, smallFilePercent = Finite 80, largeFilePercent = Finite 50,
      fewFilesCount = 10, maxSampleSize = 10000\<rparr>"

definition detectProtocol :: "string \<Rightarrow> Protocol" where
  "detectProtocol p =
     (if HasPrefix p ''s3://'' then ProtocolS3
      else if HasPrefix p ''gs://'' \<or> HasPrefix p ''gcs://'' then ProtocolGCS
      else if HasPrefix p ''azure://'' \<or> HasPrefix p ''wasb://'' then ProtocolAzure
      else if HasPrefix p ''http://'' \<or> HasPrefix p ''https://'' then ProtocolHTTP
      else if HasPrefix p ''ftp://'' \<or> HasPrefix p ''ftps://'' then ProtocolFTP
      else if Contains p CHR ''@'' \<and> Contains p CHR '':'' then ProtocolSSH
      else ProtocolLocal)"

definition isLocalPath :: "string \<Rightarrow> bool" where
  "isLocalPath p = (detectProtocol p = ProtocolLocal)"

text \<open>
  What \<open>filepath.WalkDir\<close> hands to the callback, entry by entry in walk order: whether
  the walk reports an error for the entry, whether it is a directory, the size that
  \<open>d.Info()\<close> returns (\<open>None\<close> when it fails), and the error of the context when it is
  done at this visit (\<open>None\<close> while it is not). Both walks of \<open>analyzeLocal\<close> see the
  same entries; only the second looks at the context.
\<close>

record WalkEntry =
  walkErr :: bool
  isDir :: bool
  infoSize :: "int option"
  ctxErr :: "string option"

definition plainFile :: "int \<Rightarrow> WalkEntry" where
  "plainFile sz = \<lparr>walkErr = False, isDir = False, infoSize = Some sz, ctxErr = None\<rparr>"

text \<open>Go's integer division truncates towards zero.\<close>

definition quot :: "int \<Rightarrow> int \<Rightarrow> int" where
  "quot a b = (if (a < 0) = (b < 0) then \<bar>a\<bar> div \<bar>b\<bar> else - (\<bar>a\<bar> div \<bar>b\<bar>))"

text \<open>The first walk: the number of entries that are not directories.\<close>

fun countFiles :: "WalkEntry list \<Rightarrow> int \<Rightarrow> int" where
  "countFiles [] fileCount = fileCount"
| "countFiles (e # es) fileCount =
     (if walkErr e then countFiles es fileCount
      else if \<not> isDir e then countFiles es (i64 (fileCount + 1))
      else countFiles es fileCount)"

text \<open>The body of the second callback from \<open>size := info.Size()\<close> on.\<close>

definition accumulate :: "FileAnalyzer \<Rightarrow> int \<Rightarrow> int \<Rightarrow> FileAnalysis \<Rightarrow> FileAnalysis" where
  "accumulate a sampleInterval sz analysis =
     (let an1 =
        (if sampleInterval > 1
         then analysis\<lparr>AnalysisTotalSize :=
                          i64 (AnalysisTotalSize analysis + i64 (sz * sampleInterval)),
                        AnalysisTotalFiles := i64 (AnalysisTotalFiles analysis + sampleInterval)\<rparr>
         else analysis\<lparr>AnalysisTotalSize := i64 (AnalysisTotalSize analysis + sz),
                        AnalysisTotalFiles := i64 (AnalysisTotalFiles analysis + 1)\<rparr>)
      in if sz < smallFileThreshold a then an1\<lparr>SmallFiles := i64 (SmallFiles an1 + 1)\<rparr>
         else if sz > largeFileThreshold a then an1\<lparr>LargeFiles := i64 (LargeFiles an1 + 1)\<rparr>
         else an1\<lparr>MediumFiles := i64 (MediumFiles an1 + 1)\<rparr>)"

text \<open>The second walk; a non-nil return of the callback ends the walk with that error.\<close>

fun analyzeWalk ::
  "FileAnalyzer \<Rightarrow> int \<Rightarrow> WalkEntry list \<Rightarrow> int \<Rightarrow> FileAnalysis \<Rightarrow> string + FileAnalysis" where
  "analyzeWalk a sampleInterval [] currentFile analysis = Inr analysis"
| "analyzeWalk a sampleInterval (e # es) currentFile analysis =
     (case ctxErr e of
        Some err \<Rightarrow> Inl err
      | None \<Rightarrow>
          if walkErr e then analyzeWalk a sampleInterval es currentFile analysis
          else if isDir e then analyzeWalk a sampleInterval es currentFile analysis
          else if sampleInterval > 1 \<and> i64 (currentFile + 1) mod sampleInterval \<noteq> 0
          then analyzeWalk a sampleInterval es (i64 (currentFile + 1)) analysis
          else case infoSize e of
                 None \<Rightarrow> analyzeWalk a sampleInterval es (i64 (currentFile + 1)) analysis
               | Some sz \<Rightarrow>
                   analyzeWalk a sampleInterval es (i64 (currentFile + 1))
                     (accumulate a sampleInterval sz analysis))"

text \<open>
  \<open>analyzeLocal\<close>: the interval is the truncated quotient of the file count by
  \<open>maxSampleSize\<close> when the count exceeds it, and 1 otherwise. A zero \<open>maxSampleSize\<close>
  below a positive count makes the division panic; nothing recovers from the panic, so
  it is kept apart from the errors that are returned.
\<close>

datatype failure = Err string | Panic string

definition analyzeLocal :: "FileAnalyzer \<Rightarrow> WalkEntry list \<Rightarrow> FileAnalysis \<Rightarrow> failure + FileAnalysis" where
  "analyzeLocal a walk analysis =
     (let fileCount = countFiles walk 0 in
      if fileCount > maxSampleSize a \<and> maxSampleSize a = 0
      then Inl (Panic ''runtime error: integer divide by zero'')
      else
        let sampleInterval =
              (if fileCount > maxSampleSize a then quot fileCount (maxSampleSize a) else 1)
        in case analyzeWalk a sampleInterval walk 0 analysis of
             Inl err \<Rightarrow> Inl (Err err)
           | Inr an \<Rightarrow> Inr an)"

definition recommendStrategy :: "FileAnalyzer \<Rightarrow> FileAnalysis \<Rightarrow> Strategy" where
  "recommendStrategy a analysis =
     (if AnalysisTotalFiles analysis < fewFilesCount a then StrategyRsync
      else
        let smallFileRatio =
              fmul (fdiv (float64_of_int (SmallFiles analysis))
                         (float64_of_int (AnalysisTotalFiles analysis))) (Finite 100)
        in if fgt smallFileRatio (smallFilePercent a)
              \<and> AnalysisTotalFiles analysis > manyFilesCount a
           then StrategyTar
           else
             let largeFileRatio =
                   fmul (fdiv (float64_of_int (LargeFiles analysis))
                              (float64_of_int (AnalysisTotalFiles analysis))) (Finite 100)
             in if fgt largeFileRatio (largeFilePercent a) then StrategyRsync
                else StrategyRclone)"

definition Analyze :: "FileAnalyzer \<Rightarrow> WalkEntry list \<Rightarrow> string \<Rightarrow> failure + FileAnalysis" where
  "Analyze a walk source =
     (let analysis = zeroAnalysis\<lparr>SourceProtocol := detectProtocol source\<rparr> in
      if \<not> isLocalPath source
      then Inr (analysis\<lparr>Recommendation := StrategyRclone\<rparr>)
      else case analyzeLocal a walk analysis of
             Inl (Err err) \<Rightarrow> Inl (Err (''analyze local: '' @ err))
           | Inl (Panic p) \<Rightarrow> Inl (Panic p)
           | Inr an \<Rightarrow>
               let an1 = (if AnalysisTotalFiles an > 0
                          then an\<lparr>AverageFileSize :=
                                    quot (AnalysisTotalSize an) (AnalysisTotalFiles an)\<rparr>
                          else an)
               in Inr (an1\<lparr>Recommendation := recommendStrategy a an1\<rparr>))"

definition AnalyzeTransfer ::
  "FileAnalyzer \<Rightarrow> WalkEntry list \<Rightarrow> string \<Rightarrow> string \<Rightarrow> failure + FileAnalysis" where
  "AnalyzeTransfer a walk source destination =
     (let sourceProto = detectProtocol source; destProto = detectProtocol destination in
      if sourceProto = ProtocolSSH \<and> destProto = ProtocolSSH
      then Inr (zeroAnalysis\<lparr>SourceProtocol := sourceProto, DestProtocol := destProto,
                              Recommendation := StrategyProxy\<rparr>)
      else case Analyze a walk source of
             Inl err \<Rightarrow> Inl err
           | Inr analysis \<Rightarrow> Inr (analysis\<lparr>DestProtocol := destProto\<rparr>))"

text \<open>
  The recommendation rules in the order and the words of the specification, on the
  protocol tags and the reported counts: the two ratios are exact quotients, compared
  with the percentages \<open>P_small\<close> and \<open>P_large\<close>.
\<close>

definition spec_recommend ::
  "int \<Rightarrow> int \<Rightarrow> rat \<Rightarrow> rat \<Rightarrow> Protocol \<Rightarrow> Protocol \<Rightarrow> int \<Rightarrow> int \<Rightarrow> int \<Rightarrow> Strategy" where
  "spec_recommend N_few N_many P_small P_large srcProto dstProto totalFiles smallFiles largeFiles =
     (if srcProto = ProtocolSSH \<and> dstProto = ProtocolSSH then StrategyProxy
      else if srcProto \<noteq> ProtocolLocal then StrategyRclone
      else if totalFiles < N_few then StrategyRsync
      else if totalFiles > N_many \<and> of_int smallFiles / of_int totalFiles > P_small / 100
      then StrategyTar
      else if of_int largeFiles / of_int totalFiles > P_large / 100 then StrategyRsync
      else StrategyRclone)"

text \<open>
  The same list with the two ratios as the program computes them: the percentage
  \<open>float64(n) / float64(total) * 100\<close> in \<open>float64\<close> arithmetic, compared with a
  \<open>float64\<close> threshold.
\<close>

definition percentage :: "int \<Rightarrow> int \<Rightarrow> float64" where
  "percentage n totalFiles =
     fmul (fdiv (float64_of_int n) (float64_of_int totalFiles)) (Finite 100)"

definition float_recommend ::
  "int \<Rightarrow> int \<Rightarrow> float64 \<Rightarrow> float64 \<Rightarrow> Protocol \<Rightarrow> Protocol \<Rightarrow> int \<Rightarrow> int \<Rightarrow> int \<Rightarrow> Strategy" where
  "float_recommend N_few N_many P_small P_large srcProto dstProto totalFiles smallFiles largeFiles =
     (if srcProto = ProtocolSSH \<and> dstProto = ProtocolSSH then StrategyProxy
      else if srcProto \<noteq> ProtocolLocal then StrategyRclone
      else if totalFiles < N_few then StrategyRsync
      else if totalFiles > N_many \<and> fgt (percentage smallFiles totalFiles) P_small
      then StrategyTar
      else if fgt (percentage largeFiles totalFiles) P_large then StrategyRsync
      else StrategyRclone)"

text \<open>
  The value of \<open>percentage n total\<close> when both conversions are exact and
  \<open>total\<close> is not zero.
\<close>

definition percent_value :: "int \<Rightarrow> int \<Rightarrow> rat" where
  "percent_value n totalFiles =
     round_float64 (round_float64 (of_int n / of_int totalFiles) * 100)"

text \<open>
  What the second walk maintains, \<open>cf\<close> being the number of files visited: the
  bucket counts are not negative, the total is the sum of the buckets times the amount
  added for each analysed file, and no more files were analysed than the visited ones
  allow.
\<close>

definition counts_inv :: "int \<Rightarrow> int \<Rightarrow> FileAnalysis \<Rightarrow> bool" where
  "counts_inv k cf an =
     (0 \<le> SmallFiles an \<and> 0 \<le> MediumFiles an \<and> 0 \<le> LargeFiles an \<and> 0 \<le> cf
      \<and> AnalysisTotalFiles an
          = (if k > 1 then k else 1) * (SmallFiles an + MediumFiles an + LargeFiles an)
      \<and> SmallFiles an + MediumFiles an + LargeFiles an \<le> cf div (if k > 1 then k else 1))"

text \<open>
  Sampling. \<open>files_of\<close> are the entries the second walk counts; \<open>every_kth k\<close>
  takes the \<open>k\<close>-th, \<open>2k\<close>-th, ... element of a list; \<open>kth_from\<close> is the same
  selection as a recursion with a running count. \<open>spec_sampled_counts\<close> is the
  sampling as the specification words it: the interval is the quotient rounded up,
  and the totals and the three bucket counts are all multiplied by the interval.
\<close>

definition files_of :: "WalkEntry list \<Rightarrow> WalkEntry list" where
  "files_of walk = filter (\<lambda>e. \<not> walkErr e \<and> \<not> isDir e) walk"

definition every_kth :: "nat \<Rightarrow> 'a list \<Rightarrow> 'a list" where
  "every_kth k xs = map (\<lambda>i. xs ! i) (filter (\<lambda>i. Suc i mod k = 0) [0..<length xs])"

fun kth_from :: "nat \<Rightarrow> nat \<Rightarrow> 'a list \<Rightarrow> 'a list" where
  "kth_from k c [] = []"
| "kth_from k c (x # xs) =
     (if Suc c mod k = 0 then x # kth_from k (Suc c) xs else kth_from k (Suc c) xs)"

definition counts_of :: "FileAnalysis \<Rightarrow> int \<times> int \<times> int \<times> int \<times> int" where
  "counts_of an =
     (AnalysisTotalFiles an, AnalysisTotalSize an, SmallFiles an, MediumFiles an, LargeFiles an)"

definition spec_sampled_counts :: "FileAnalyzer \<Rightarrow> int list \<Rightarrow> int \<times> int \<times> int \<times> int \<times> int" where
  "spec_sampled_counts a sizes =
     (let k = (int (length sizes) + maxSampleSize a - 1) div maxSampleSize a;
          S = every_kth (nat k) sizes
      in (k * int (length S), k * sum_list S,
          k * int (length (filter (\<lambda>s. s < smallFileThreshold a) S)),
          k * int (length (filter (\<lambda>s. \<not> s < smallFileThreshold a \<and> \<not> s > largeFileThreshold a) S)),
          k * int (length (filter (\<lambda>s. \<not> s < smallFileThreshold a \<and> s > largeFileThreshold a) S))))"

text \<open>Analyzers and walks for the examples.\<close>

definition sample2 :: FileAnalyzer where
  "sample2 = New\<lparr>maxSampleSize := 2\<rparr>"

definition walk_of :: "int list \<Rightarrow> WalkEntry list" where
  "walk_of sizes = map plainFile sizes"

definition tar_analyzer :: FileAnalyzer where
  "tar_analyzer = New\<lparr>manyFilesCount := 3, fewFilesCount := 2\<rparr>"

text \<open>
  An analyzer with the large-file percentage set to 55, and a tree of twenty files of
  which eleven are larger than 100 MiB.
\<close>

definition percent55 :: FileAnalyzer where
  "percent55 = New\<lparr>largeFilePercent := Finite 55\<rparr>"

definition eleven_large_of_twenty :: "int list" where
  "eleven_large_of_twenty =
     [209715200, 209715200, 209715200, 209715200, 209715200, 209715200, 209715200,
      209715200, 209715200, 209715200, 209715200,
      1048576, 1048576, 1048576, 1048576, 1048576, 1048576, 1048576, 1048576, 1048576]"

section \<open>Source worker (package batch)\<close>

definition SetStatus :: "Batch \<Rightarrow> string \<Rightarrow> Batch" where
  "SetStatus b st = b\<lparr>Status := st\<rparr>"

definition SetError :: "Batch \<Rightarrow> string \<Rightarrow> Batch" where
  "SetError b err = b\<lparr>Error := err, Status := ''failed''\<rparr>"

definition SetLocalPath :: "Batch \<Rightarrow> string \<Rightarrow> Batch" where
  "SetLocalPath b p = b\<lparr>LocalPath := p\<rparr>"

text \<open>
  What one call of \<open>processBatch\<close> meets outside the program: the outcome of
  \<open>EnsureBatchDir\<close>, the path \<open>GetBatchPath\<close> computes (\<open>filepath.Join\<close> and
  \<open>Sprintf\<close> are library functions), what happens between two attempts of the
  reservation loop, the outcome of \<open>createFileList\<close>, the error of the tar command,
  and what \<open>os.Stat\<close> answers for a path once the command has exited.
  Between two attempts of the loop either the stop channel is found closed, or other
  goroutines' buffer operations take effect.
\<close>

datatype wait_event = StopClosed | Interleaved "buffer_op list"

record BatchEnv =
  ensureDirError :: "string option"
  getBatchPath :: "string \<Rightarrow> int \<Rightarrow> string"
  waitEvents :: "wait_event list"
  fileListResult :: "string + string"
  tarError :: "string option"
  stat :: "string \<Rightarrow> string + int"

text \<open>
  The loop \<open>for !ReserveSpace(batch.Size) { select ... }\<close>. It has no bound: when the
  events given are used up and the reservation is still refused, the worker is still
  spinning, which is the result \<open>Spinning\<close>.
\<close>

datatype wait_result = Reserved | Stopped | Spinning

fun reserveLoop :: "BufferManager \<Rightarrow> int \<Rightarrow> wait_event list \<Rightarrow> wait_result \<times> BufferManager" where
  "reserveLoop bm sz [] =
     (if fst (ReserveSpace bm sz) then (Reserved, snd (ReserveSpace bm sz)) else (Spinning, bm))"
| "reserveLoop bm sz (ev # evs) =
     (if fst (ReserveSpace bm sz) then (Reserved, snd (ReserveSpace bm sz))
      else case ev of
             StopClosed \<Rightarrow> (Stopped, bm)
           | Interleaved ops \<Rightarrow> reserveLoop (foldl apply_buffer_op bm ops) sz evs)"

text \<open>
  \<open>createTarArchive\<close>: run the command, stat the output, and when the length differs
  from \<open>batch.Size\<close> adjust the accounting by the difference (the result of
  \<open>ReserveSpace\<close> is not looked at) and store the length in \<open>batch.Size\<close>.
\<close>

definition createTarArchive ::
  "BatchEnv \<Rightarrow> BufferManager \<Rightarrow> Batch \<Rightarrow> string \<Rightarrow> string option \<times> Batch \<times> BufferManager" where
  "createTarArchive env bm batch outputPath =
     (case tarError env of
        Some err \<Rightarrow> (Some (''tar failed: '' @ err), batch, bm)
      | None \<Rightarrow>
          (case stat env outputPath of
             Inl err \<Rightarrow> (Some (''verify archive: '' @ err), batch, bm)
           | Inr infoSz \<Rightarrow>
               if infoSz \<noteq> Size batch
               then let diff = i64 (infoSz - Size batch);
                        bm' = (if diff > 0 then snd (ReserveSpace bm diff)
                               else ReleaseSpace bm (i64 (- diff)))
                    in (None, batch\<lparr>Size := infoSz\<rparr>, bm')
               else (None, batch, bm)))"

datatype outcome = Returned "string option" | StillWaiting

definition processBatch ::
  "BatchEnv \<Rightarrow> string \<Rightarrow> BufferManager \<Rightarrow> Batch \<Rightarrow> outcome \<times> Batch \<times> BufferManager" where
  "processBatch env manifestID bm batch0 =
     (let batch = SetStatus batch0 ''downloading'' in
      case ensureDirError env of
        Some err \<Rightarrow> (Returned (Some (''ensure batch dir: '' @ err)), batch, bm)
      | None \<Rightarrow>
          let batchPath = getBatchPath env manifestID (ID batch) in
          (case reserveLoop bm (Size batch) (waitEvents env) of
             (Spinning, bm1) \<Rightarrow> (StillWaiting, batch, bm1)
           | (Stopped, bm1) \<Rightarrow>
               (Returned (Some ''stopped while waiting for buffer space''), batch, bm1)
           | (Reserved, bm1) \<Rightarrow>
               (case fileListResult env of
                  Inl err \<Rightarrow>
                    (Returned (Some (''create file list: '' @ err)), batch,
                     ReleaseSpace bm1 (Size batch))
                | Inr fileListPath \<Rightarrow>
                    (case createTarArchive env bm1 batch batchPath of
                       (Some err, batch2, bm2) \<Rightarrow>
                         (Returned (Some (''create tar: '' @ err)), batch2,
                          ReleaseSpace bm2 (Size batch2))
                     | (None, batch2, bm2) \<Rightarrow>
                         (Returned None,
                          SetStatus (SetLocalPath batch2 batchPath) ''buffered'', bm2)))))"

text \<open>The worker's handling of one batch: an error is recorded on the batch.\<close>

definition sourceWorkerStep ::
  "BatchEnv \<Rightarrow> string \<Rightarrow> BufferManager \<Rightarrow> Batch \<Rightarrow> outcome \<times> Batch \<times> BufferManager" where
  "sourceWorkerStep env manifestID bm batch =
     (case processBatch env manifestID bm batch of
        (Returned (Some err), batch', bm') \<Rightarrow> (Returned (Some err), SetError batch' err, bm')
      | r \<Rightarrow> r)"

text \<open>
  A buffer of 100 bytes, a batch declared at 60 bytes, and an environment in which
  every step succeeds and the archive produced has \<open>n\<close> bytes.
\<close>

definition small_buffer :: BufferManager where
  "small_buffer = \<lparr>path = ''/tmp/difpipe-buffer'', maxSize = 100, currentSize = 0, initialized = True\<rparr>"

definition batch60 :: Batch where
  "batch60 = \<lparr>ID = 0, Files = [''a'', ''b''], Size = 60, FileCount = 2, Status = ''pending'',
               LocalPath = [], Error = []\<rparr>"

definition archive_env :: "int \<Rightarrow> BatchEnv" where
  "archive_env n =
     \<lparr>ensureDirError = None,
      getBatchPath = (\<lambda>m i. ''/tmp/difpipe-buffer/m/batch_00000.tar.gz''),
      waitEvents = [], fileListResult = Inr ''/tmp/difpipe-filelists/m/batch_00000.list'',
      tarError = None,
      stat = (\<lambda>p. if p = ''/tmp/difpipe-buffer/m/batch_00000.tar.gz'' then Inr n
                    else Inl ''no such file or directory'')\<rparr>"


section \<open>Destination worker (package batch)\<close>

text \<open>
  \<open>processBatch\<close> of the destination pool, with the worker's error handling: the
  error of the extraction command and the outcome of \<open>os.Remove\<close> are given. A failed
  deletion is only logged.
\<close>

definition destWorkerStep ::
  "Config \<Rightarrow> string option \<Rightarrow> string option \<Rightarrow> BufferManager \<Rightarrow> Batch \<Rightarrow> string option \<times> Batch \<times> BufferManager" where
  "destWorkerStep config extractError removeErr bm batch0 =
     (let batch = SetStatus batch0 ''uploading''; batchPath = LocalPath batch in
      if batchPath = [] then
        (Some ''batch has no local path'', SetError batch ''batch has no local path'', bm)
      else case extractError of
             Some err \<Rightarrow> (Some (''extract tar: '' @ err), SetError batch (''extract tar: '' @ err), bm)
           | None \<Rightarrow>
               (None, SetStatus batch ''completed'',
                if CleanupBuffer config then snd (DeleteBatch bm removeErr (Size batch)) else bm))"

section \<open>Dispatcher: coordinateTransfer\<close>

text \<open>
  The goroutines of one run of \<open>coordinateTransfer\<close> and of the two pools, as an
  interleaving of atomic steps on shared state. A batch pointer is its index in
  \<open>manifest.Batches\<close>. The state holds the batches, the position of the source
  feeder's loop, the two queues (channels) and the batches each pool's workers
  currently hold, the map \<open>enqueuedToDest\<close> (the set of its keys), and whether the
  destination poller has returned. Two history variables record the run:
  \<open>received\<close> lists the batches sent into the destination queue, in order, and
  \<open>reached\<close> is the set of batches that a source worker has set to \<open>buffered\<close>.
  Queue capacities and the number of workers only restrict when a step can happen and
  are left out: the model has every behaviour of the program.
\<close>

record Pipeline =
  batches :: "Batch list"
  fed :: nat
  sourceQueue :: "nat list"
  sourceBusy :: "nat list"
  destQueue :: "nat list"
  destBusy :: "nat list"
  enqueuedToDest :: "int set"
  pollerDone :: bool
  received :: "nat list"
  reached :: "nat set"

definition initial :: "Batch list \<Rightarrow> Pipeline" where
  "initial bs =
     \<lparr>batches = bs, fed = 0, sourceQueue = [], sourceBusy = [], destQueue = [],
      destBusy = [], enqueuedToDest = {}, pollerDone = False, received = [], reached = {}\<rparr>"

text \<open>The source feeder sends the next batch of its loop into the source queue.\<close>

definition feed :: "Pipeline \<Rightarrow> Pipeline" where
  "feed s = s\<lparr>sourceQueue := sourceQueue s @ [fed s], fed := Suc (fed s)\<rparr>"

text \<open>
  A source worker receives the head of the queue and enters \<open>processBatch\<close>; later
  it leaves the batch as \<open>processBatch\<close> and the error handling made it.
\<close>

definition sourceTake :: "Pipeline \<Rightarrow> Pipeline" where
  "sourceTake s =
     (case sourceQueue s of
        [] \<Rightarrow> s
      | i # q \<Rightarrow> s\<lparr>sourceQueue := q, sourceBusy := i # sourceBusy s,
                     batches := (batches s)[i := SetStatus (batches s ! i) ''downloading'']\<rparr>)"

definition sourceFinish :: "nat \<Rightarrow> Batch \<Rightarrow> Pipeline \<Rightarrow> Pipeline" where
  "sourceFinish i b' s =
     s\<lparr>sourceBusy := remove1 i (sourceBusy s), batches := (batches s)[i := b'],
       reached := (if Status b' = ''buffered'' then insert i (reached s) else reached s)\<rparr>"

text \<open>
  The body of the poller's loop over the batches, for the batch at index \<open>i\<close>, when
  \<open>EnqueueBatch\<close> succeeds: the batch is sent only if its status is \<open>buffered\<close> and
  its id is not a key of the map, and the id is then stored. \<open>pollTick\<close> is one whole
  pass of the loop with no step of another goroutine in between.
\<close>

definition pollBatch :: "nat \<Rightarrow> Pipeline \<Rightarrow> Pipeline" where
  "pollBatch i s =
     (let batch = batches s ! i in
      if Status batch = ''buffered'' \<and> ID batch \<notin> enqueuedToDest s
      then s\<lparr>destQueue := destQueue s @ [i],
             enqueuedToDest := insert (ID batch) (enqueuedToDest s),
             received := received s @ [i]\<rparr>
      else s)"

definition pollTick :: "Pipeline \<Rightarrow> Pipeline" where
  "pollTick s = foldl (\<lambda>s i. pollBatch i s) s [0..<length (batches s)]"

definition destTake :: "Pipeline \<Rightarrow> Pipeline" where
  "destTake s =
     (case destQueue s of
        [] \<Rightarrow> s
      | i # q \<Rightarrow> s\<lparr>destQueue := q, destBusy := i # destBusy s,
                     batches := (batches s)[i := SetStatus (batches s ! i) ''uploading'']\<rparr>)"

definition destFinish :: "nat \<Rightarrow> Batch \<Rightarrow> Pipeline \<Rightarrow> Pipeline" where
  "destFinish i b' s =
     s\<lparr>destBusy := remove1 i (destBusy s), batches := (batches s)[i := b']\<rparr>"

text \<open>
  The steps. A source worker finishes a batch with any outcome of
  \<open>sourceWorkerStep\<close> in which \<open>processBatch\<close> returns, a destination worker with
  any outcome of \<open>destWorkerStep\<close>. The poller looks at the batches while it has not
  returned; it returns on the stop channel, on an error of \<open>EnqueueBatch\<close>, or when
  all batches are terminal.
\<close>

inductive step :: "Pipeline \<Rightarrow> Pipeline \<Rightarrow> bool" where
  Feed: "fed s < length (batches s) \<Longrightarrow> step s (feed s)"
| SourceTake: "sourceQueue s \<noteq> [] \<Longrightarrow> step s (sourceTake s)"
| SourceFinish:
    "i \<in> set (sourceBusy s) \<Longrightarrow>
     sourceWorkerStep env mid bm (batches s ! i) = (Returned r, b', bm') \<Longrightarrow>
     step s (sourceFinish i b' s)"
| Poll: "\<not> pollerDone s \<Longrightarrow> i < length (batches s) \<Longrightarrow> step s (pollBatch i s)"
| PollerReturn: "step s (s\<lparr>pollerDone := True\<rparr>)"
| DestTake: "destQueue s \<noteq> [] \<Longrightarrow> step s (destTake s)"
| DestFinish:
    "i \<in> set (destBusy s) \<Longrightarrow>
     destWorkerStep config extractError removeErr bm (batches s ! i) = (r, b', bm') \<Longrightarrow>
     step s (destFinish i b' s)"

inductive reachable :: "Batch list \<Rightarrow> Pipeline \<Rightarrow> bool" for bs :: "Batch list" where
  Start: "reachable bs (initial bs)"
| Step: "reachable bs s \<Longrightarrow> step s s' \<Longrightarrow> reachable bs s'"

definition allBatchesCompleted :: "Pipeline \<Rightarrow> bool" where
  "allBatchesCompleted s =
     list_all (\<lambda>b. \<not> (Status b \<noteq> ''completed'' \<and> Status b \<noteq> ''failed'')) (batches s)"

text \<open>The id of the batch at an index, and the invariant of the run.\<close>

definition idOf :: "Pipeline \<Rightarrow> nat \<Rightarrow> int" where
  "idOf s i = ID (batches s ! i)"

definition dispatch_inv :: "Batch list \<Rightarrow> Pipeline \<Rightarrow> bool" where
  "dispatch_inv bs s =
     (map ID (batches s) = map ID bs
      \<and> fed s \<le> length bs
      \<and> distinct (sourceQueue s @ sourceBusy s)
      \<and> (\<forall>i \<in> set (sourceQueue s @ sourceBusy s). i < fed s \<and> i \<notin> reached s)
      \<and> (\<forall>i \<in> reached s. i < fed s)
      \<and> (\<forall>i \<in> set (destQueue s @ destBusy s @ received s). i < length bs)
      \<and> set (destQueue s @ destBusy s) \<subseteq> set (received s)
      \<and> enqueuedToDest s = idOf s ` set (received s)
      \<and> distinct (map (idOf s) (received s))
      \<and> (\<forall>i \<in> reached s. Status (batches s ! i) = ''buffered'' \<or> i \<in> set (received s)))"

text \<open>
  A run with one batch: fed, archived by a source worker (45 bytes), found by two
  passes of the poller, extracted by a destination worker.
\<close>

definition buffered60 :: Batch where
  "buffered60 = batch60\<lparr>Size := 45, LocalPath := ''/tmp/difpipe-buffer/m/batch_00000.tar.gz'',
                         Status := ''buffered''\<rparr>"

definition demo_buffered :: Pipeline where
  "demo_buffered = sourceFinish 0 buffered60 (sourceTake (feed (initial [batch60])))"

definition demo_run :: Pipeline where
  "demo_run =
     destFinish 0 (buffered60\<lparr>Status := ''completed''\<rparr>)
       (destTake (pollTick (pollTick demo_buffered)))"

definition demo_polled :: Pipeline where
  "demo_polled =
     \<lparr>batches = [buffered60], fed = 1, sourceQueue = [], sourceBusy = [], destQueue = [0],
      destBusy = [], enqueuedToDest = {0}, pollerDone = False, received = [0], reached = {0}\<rparr>"

section \<open>Facts about 64-bit arithmetic\<close>

lemma i64_id: "in_i64 x \<Longrightarrow> i64 x = x"
  by (simp add: i64_def in_i64_def)

lemma i64_add_left: "i64 (i64 a + b) = i64 (a + b)"
proof -
  have "(((a + 2 ^ 63) mod 2 ^ 64 - 2 ^ 63 + b) + 2 ^ 63) mod 2 ^ 64
        = ((a + 2 ^ 63) mod 2 ^ 64 + b) mod (2 ^ 64 :: int)"
    by (simp add: algebra_simps)
  also have "\<dots> = ((a + 2 ^ 63) + b) mod 2 ^ 64"
    by (rule mod_add_left_eq)
  finally show ?thesis
    by (simp add: i64_def algebra_simps)
qed


section \<open>Exit codes: results\<close>

text \<open>
  C10 (as stated, refuted). The claim lists 31 (checksum mismatch) among the documented
  codes for which \<open>IsRetryable\<close> is false; the registry entry of 31 has
  \<open>Retryable: true\<close>, so \<open>IsRetryable 31\<close> holds although 31 is a documented code
  outside the claim's retryable set.
\<close>

theorem C10_IsRetryable_31_counterexample:
  "31 \<in> set documented_codes \<and> 31 \<notin> {12, 30, 32, 51, 52 :: int} \<and> IsRetryable 31"
  by (simp add: documented_codes_def IsRetryable_def GetExitCodeInfo_def
      ExitCodeRegistry_def mkInfo_def exit_code_defs)

text \<open>
  C10 (amended). For every exit code, documented or not, \<open>IsRetryable\<close> returns true
  exactly for 12 (network), 30 (transfer failed), 31 (checksum mismatch),
  32 (partial transfer), 51 (timeout) and 52 (quota); in particular it is false for
  the documented codes 0, 1, 10, 11, 20, 21, 22, 23, 40, 41, 42 and 50.
\<close>

theorem C10_IsRetryable_exact:
  "IsRetryable code = (code = 12 \<or> code = 30 \<or> code = 31 \<or> code = 32 \<or> code = 51 \<or> code = 52)"
  by (simp add: IsRetryable_def GetExitCodeInfo_def ExitCodeRegistry_def mkInfo_def
      exit_code_defs)

section \<open>Manifest conservation\<close>








section \<open>Bin packing\<close>

lemma sizeOf_simps [simp]:
  "sizeOf [] = 0" "sizeOf (g @ h) = sizeOf g + sizeOf h" "sizeOf (f # g) = FileSize f + sizeOf g"
  by (simp_all add: sizeOf_def)

lemma toBatchInfo_sel [simp]:
  "files (toBatchInfo g) = map Path g" "size (toBatchInfo g) = sizeOf g"
  by (simp_all add: toBatchInfo_def)

lemma sizeOf_nonneg: "\<forall>f \<in> set g. 0 \<le> FileSize f \<Longrightarrow> 0 \<le> sizeOf g"
  by (induction g) auto

lemma sizeOf_pos: "\<forall>f \<in> set g. 0 < FileSize f \<Longrightarrow> g \<noteq> [] \<Longrightarrow> 0 < sizeOf g"
  by (induction g) (auto simp: add_pos_nonneg sizeOf_nonneg less_imp_le)

lemma sizeOf_pos_nonempty: "0 < sizeOf g \<Longrightarrow> g \<noteq> []"
  by auto

text \<open>The loop of the source computes the grouping, as long as no sum leaves 64 bits.\<close>

lemma binPackLoop_groups:
  assumes "\<forall>f \<in> set cur \<union> set fs. 0 \<le> FileSize f" "sizeOf cur + sizeOf fs < 2 ^ 63"
  shows "binPackLoop C fs (map toBatchInfo sealed) (toBatchInfo cur)
         = (case packGroups C fs sealed cur of (s, c) \<Rightarrow> (map toBatchInfo s, toBatchInfo c))"
  using assms
proof (induction fs arbitrary: sealed cur)
  case Nil
  then show ?case by simp
next
  case (Cons f rest)
  have c0: "0 \<le> sizeOf cur" and f0: "0 \<le> FileSize f" and r0: "0 \<le> sizeOf rest"
    using Cons.prems(1) by (auto intro: sizeOf_nonneg)
  have rng: "in_i64 (sizeOf cur + FileSize f)" "in_i64 (FileSize f)"
    using c0 f0 r0 Cons.prems(2) by (auto simp: in_i64_def)
  have e1: "i64 (sizeOf cur + FileSize f) = sizeOf cur + FileSize f"
    and e2: "i64 (FileSize f) = FileSize f"
    using rng by (simp_all add: i64_id)
  show ?case
  proof (cases "sizeOf cur > 0 \<and> sizeOf cur + FileSize f > C")
    case True
    have ih: "binPackLoop C rest (map toBatchInfo (sealed @ [cur])) (toBatchInfo [f])
          = (case packGroups C rest (sealed @ [cur]) [f] of (s, c) \<Rightarrow> (map toBatchInfo s, toBatchInfo c))"
      using Cons.prems c0 by (intro Cons.IH) auto
    have l: "binPackLoop C (f # rest) (map toBatchInfo sealed) (toBatchInfo cur)
          = binPackLoop C rest (map toBatchInfo (sealed @ [cur])) (toBatchInfo [f])"
      using True by (auto simp: e1 e2 toBatchInfo_def)
    have r: "packGroups C (f # rest) sealed cur = packGroups C rest (sealed @ [cur]) [f]"
      using True by simp
    show ?thesis by (simp only: l r ih)
  next
    case False
    have ih: "binPackLoop C rest (map toBatchInfo sealed) (toBatchInfo (cur @ [f]))
          = (case packGroups C rest sealed (cur @ [f]) of (s, c) \<Rightarrow> (map toBatchInfo s, toBatchInfo c))"
      using Cons.prems by (intro Cons.IH) auto
    have l: "binPackLoop C (f # rest) (map toBatchInfo sealed) (toBatchInfo cur)
          = binPackLoop C rest (map toBatchInfo sealed) (toBatchInfo (cur @ [f]))"
      using False by (auto simp: e1 toBatchInfo_def)
    have r: "packGroups C (f # rest) sealed cur = packGroups C rest sealed (cur @ [f])"
      using False by auto
    show ?thesis by (simp only: l r ih)
  qed
qed

lemma packGroups_concat:
  "packGroups C fs sealed cur = (s, c) \<Longrightarrow> concat s @ c = concat sealed @ cur @ fs"
  by (induction fs arbitrary: sealed cur) (auto split: if_splits)

lemma consecutive_snoc:
  assumes "consecutive C sealed" "sealed \<noteq> [] \<longrightarrow> sizeOf (last sealed) + FileSize (hd cur) > C"
  shows "consecutive C (sealed @ [cur])"
  unfolding consecutive_def
proof (intro allI impI)
  fix i assume i: "Suc i < length (sealed @ [cur])"
  show "C < sizeOf ((sealed @ [cur]) ! i) + FileSize (hd ((sealed @ [cur]) ! Suc i))"
  proof (cases "Suc i < length sealed")
    case True
    with assms(1) show ?thesis by (simp add: consecutive_def nth_append)
  next
    case False
    with i have eq: "Suc i = length sealed" by simp
    then have ne: "sealed \<noteq> []" by auto
    from eq have "i = length sealed - 1" by simp
    then have "sealed ! i = last sealed" using ne by (simp add: last_conv_nth)
    with assms(2) ne eq show ?thesis by (simp add: nth_append)
  qed
qed

lemma bigLast_snoc:
  assumes bl: "bigLast C cur" and nn: "\<forall>f \<in> set cur. 0 \<le> FileSize f" "0 \<le> FileSize f"
    and ns: "\<not> (sizeOf cur > 0 \<and> sizeOf cur + FileSize f > C)"
  shows "bigLast C (cur @ [f])"
  unfolding bigLast_def
proof (intro allI impI)
  fix j assume j: "j < length (cur @ [f])"
    and big: "C < FileSize ((cur @ [f]) ! j) \<and> 0 < FileSize ((cur @ [f]) ! j)"
  have c0: "0 \<le> sizeOf cur" using nn(1) by (rule sizeOf_nonneg)
  show "Suc j = length (cur @ [f]) \<and> sizeOf (cur @ [f]) = FileSize ((cur @ [f]) ! j)"
  proof (cases "j < length cur")
    case True
    with big bl have "sizeOf cur = FileSize (cur ! j)" "C < FileSize (cur ! j)" "0 < FileSize (cur ! j)"
      by (auto simp: bigLast_def nth_append)
    with ns nn(2) show ?thesis by auto
  next
    case False
    with j have eq: "j = length cur" by simp
    with big have "C < FileSize f" by simp
    with ns c0 have "sizeOf cur = 0" by auto
    with eq show ?thesis by simp
  qed
qed

lemma bigLast_single: "bigLast C [f]"
  by (simp add: bigLast_def)

lemma bigLast_Nil: "bigLast C []"
  by (simp add: bigLast_def)

lemma packGroups_inv:
  assumes "packGroups C fs sealed cur = (s, c)" "pack_inv C sealed cur"
    "\<forall>f \<in> set cur \<union> set fs. 0 \<le> FileSize f"
  shows "pack_inv C s c"
  using assms
proof (induction fs arbitrary: sealed cur)
  case Nil
  then show ?case by simp
next
  case (Cons f rest)
  show ?case
  proof (cases "sizeOf cur > 0 \<and> sizeOf cur + FileSize f > C")
    case True
    then have ne: "cur \<noteq> []" by auto
    have "pack_inv C (sealed @ [cur]) [f]"
      using Cons.prems(2) True ne
      by (auto simp: pack_inv_def bigLast_single intro!: consecutive_snoc)
    moreover have "packGroups C rest (sealed @ [cur]) [f] = (s, c)"
      using Cons.prems(1) True by simp
    ultimately show ?thesis using Cons.prems(3) by (intro Cons.IH [of "sealed @ [cur]" "[f]"]) auto
  next
    case False
    have "bigLast C (cur @ [f])"
      using Cons.prems(2,3) False by (intro bigLast_snoc) (auto simp: pack_inv_def)
    then have "pack_inv C sealed (cur @ [f])"
      using Cons.prems(2) by (auto simp: pack_inv_def)
    moreover have "packGroups C rest sealed (cur @ [f]) = (s, c)"
      using Cons.prems(1) False by simp
    ultimately show ?thesis using Cons.prems(3) by (intro Cons.IH [of sealed "cur @ [f]"]) auto
  qed
qed

lemma packGroups_spec:
  assumes "\<forall>f \<in> set cur \<union> set fs. 0 < FileSize f"
  shows "packGroups C fs sealed cur = spec_packLoop C fs sealed cur"
  using assms
proof (induction fs arbitrary: sealed cur)
  case Nil
  then show ?case by simp
next
  case (Cons f rest)
  have "(0 < sizeOf cur) = (cur \<noteq> [])"
    using Cons.prems sizeOf_pos [of cur] by auto
  then show ?case using Cons by auto
qed

lemma emptyBatch_toBatchInfo: "emptyBatch = toBatchInfo []"
  by (simp add: emptyBatch_def toBatchInfo_def)


lemma binPackFiles_groups:
  assumes "\<forall>f \<in> set fs. 0 \<le> FileSize f" "sizeOf fs < 2 ^ 63"
  shows "binPackFiles config fs = map toBatchInfo (groupsOf (targetSizeOf config) fs)"
proof -
  obtain s c where sc: "packGroups (targetSizeOf config) fs [] [] = (s, c)"
    by (cases "packGroups (targetSizeOf config) fs [] []")
  have "binPackLoop (targetSizeOf config) fs (map toBatchInfo []) (toBatchInfo [])
        = (map toBatchInfo s, toBatchInfo c)"
    using binPackLoop_groups [of "[]" fs "targetSizeOf config" "[]"] assms sc by simp
  then show ?thesis
    by (simp add: binPackFiles_def groupsOf_def sc emptyBatch_toBatchInfo)
qed

lemma pack_inv_init: "pack_inv C [] []"
  by (simp add: pack_inv_def consecutive_def bigLast_Nil)

lemma groupsOf_props:
  assumes nn: "\<forall>f \<in> set fs. 0 \<le> FileSize f"
  shows "concat (groupsOf C fs) = fs"
    and "\<forall>g \<in> set (groupsOf C fs). g \<noteq> []"
    and "consecutive C (groupsOf C fs)"
    and "\<forall>g \<in> set (groupsOf C fs). bigLast C g"
proof -
  obtain s c where sc: "packGroups C fs [] [] = (s, c)"
    by (cases "packGroups C fs [] []")
  have inv: "pack_inv C s c"
    by (rule packGroups_inv [OF sc pack_inv_init]) (use nn in simp)
  have cc: "concat s @ c = fs"
    using packGroups_concat [OF sc] by simp
  have g: "groupsOf C fs = (if c \<noteq> [] then s @ [c] else s)"
    by (simp add: groupsOf_def sc)
  show "concat (groupsOf C fs) = fs"
    unfolding g using cc by (cases "c = []") simp_all
  show "\<forall>g \<in> set (groupsOf C fs). g \<noteq> []"
    unfolding g using inv by (cases "c = []") (simp_all add: pack_inv_def)
  show "\<forall>g \<in> set (groupsOf C fs). bigLast C g"
    unfolding g using inv by (cases "c = []") (simp_all add: pack_inv_def)
  show "consecutive C (groupsOf C fs)"
  proof (cases "c = []")
    case True
    with inv have "s = []" by (simp add: pack_inv_def)
    with True show ?thesis unfolding g by (simp add: consecutive_def)
  next
    case False
    have "consecutive C (s @ [c])"
      using inv by (intro consecutive_snoc) (simp_all add: pack_inv_def)
    with False show ?thesis unfolding g by simp
  qed
qed

lemma groupsOf_spec:
  assumes "\<forall>f \<in> set fs. 0 < FileSize f"
  shows "groupsOf C fs = spec_pack C fs"
  using packGroups_spec [of "[]" fs C "[]"] assms
  by (simp add: groupsOf_def spec_pack_def)

lemma bigLast_positive_single:
  assumes bl: "bigLast C g" and pos: "\<forall>f \<in> set g. 0 < FileSize f"
    and f: "f \<in> set g" "C < FileSize f"
  shows "g = [f]"
proof -
  from f(1) obtain j where j: "j < length g" "g ! j = f"
    by (auto simp: in_set_conv_nth)
  with bl f(2) pos f(1) have last: "Suc j = length g" and sz: "sizeOf g = FileSize f"
    by (auto simp: bigLast_def)
  from last j have g: "g = take j g @ [f]"
    by (metis lessI take_Suc_conv_app_nth take_all order_refl)
  then have "sizeOf g = sizeOf (take j g) + FileSize f"
    by (metis sizeOf_simps(1,2,3) add.right_neutral)
  with sz have z: "sizeOf (take j g) = 0" by simp
  have "take j g = []"
  proof (rule ccontr)
    assume ne: "take j g \<noteq> []"
    have "\<forall>f \<in> set (take j g). 0 < FileSize f"
      using pos by (auto dest: in_set_takeD)
    from sizeOf_pos [OF this ne] z show False by simp
  qed
  with g show ?thesis by simp
qed

lemma unsealed_inside_single: "unsealed_inside C [f]"
  by (simp add: unsealed_inside_def)

lemma unsealed_inside_Nil: "unsealed_inside C []"
  by (simp add: unsealed_inside_def)

lemma unsealed_inside_snoc:
  assumes "unsealed_inside C cur" "\<not> (sizeOf cur > 0 \<and> sizeOf cur + FileSize f > C)"
  shows "unsealed_inside C (cur @ [f])"
  unfolding unsealed_inside_def
proof (intro allI impI)
  fix j assume j: "0 < j \<and> j < length (cur @ [f])"
  show "\<not> (sizeOf (take j (cur @ [f])) > 0
            \<and> sizeOf (take j (cur @ [f])) + FileSize ((cur @ [f]) ! j) > C)"
  proof (cases "j < length cur")
    case True
    with assms(1) j show ?thesis by (simp add: unsealed_inside_def nth_append)
  next
    case False
    with j have "j = length cur" by simp
    with assms(2) show ?thesis by simp
  qed
qed

lemma packGroups_seal:
  assumes "packGroups C fs sealed cur = (s, c)"
    "\<forall>g \<in> set sealed. unsealed_inside C g \<and> 0 < sizeOf g" "unsealed_inside C cur"
  shows "(\<forall>g \<in> set s. unsealed_inside C g \<and> 0 < sizeOf g) \<and> unsealed_inside C c"
  using assms
proof (induction fs arbitrary: sealed cur)
  case Nil
  then show ?case by simp
next
  case (Cons f rest)
  show ?case
  proof (cases "sizeOf cur > 0 \<and> sizeOf cur + FileSize f > C")
    case True
    have "packGroups C rest (sealed @ [cur]) [f] = (s, c)"
      using Cons.prems(1) True by simp
    moreover have "\<forall>g \<in> set (sealed @ [cur]). unsealed_inside C g \<and> 0 < sizeOf g"
      using Cons.prems(2,3) True by simp
    ultimately show ?thesis
      by (rule Cons.IH) (rule unsealed_inside_single)
  next
    case False
    have "packGroups C rest sealed (cur @ [f]) = (s, c)"
      using Cons.prems(1) False by auto
    then show ?thesis
      using Cons.prems(2) by (rule Cons.IH) (rule unsealed_inside_snoc [OF Cons.prems(3) False])
  qed
qed

lemma groupsOf_seal:
  assumes nn: "\<forall>f \<in> set fs. 0 \<le> FileSize f"
  shows "\<forall>g \<in> set (groupsOf C fs). unsealed_inside C g"
    and "\<forall>i. Suc i < length (groupsOf C fs) \<longrightarrow> 0 < sizeOf (groupsOf C fs ! i)"
proof -
  obtain s c where sc: "packGroups C fs [] [] = (s, c)"
    by (cases "packGroups C fs [] []")
  have inv: "(\<forall>g \<in> set s. unsealed_inside C g \<and> 0 < sizeOf g) \<and> unsealed_inside C c"
    by (rule packGroups_seal [OF sc]) (simp_all add: unsealed_inside_Nil)
  have g: "groupsOf C fs = (if c \<noteq> [] then s @ [c] else s)"
    by (simp add: groupsOf_def sc)
  show "\<forall>g \<in> set (groupsOf C fs). unsealed_inside C g"
    unfolding g using inv by (cases "c = []") simp_all
  show "\<forall>i. Suc i < length (groupsOf C fs) \<longrightarrow> 0 < sizeOf (groupsOf C fs ! i)"
  proof (intro allI impI)
    fix i assume i: "Suc i < length (groupsOf C fs)"
    have "i < length s" using i unfolding g by (cases "c = []") simp_all
    moreover have "groupsOf C fs ! i = s ! i"
      unfolding g using \<open>i < length s\<close> by (cases "c = []") (simp_all add: nth_append)
    ultimately show "0 < sizeOf (groupsOf C fs ! i)"
      using inv by (simp add: all_set_conv_all_nth)
  qed
qed

text \<open>
  C2 (amended). For every list of files with non-negative sizes whose total is below
  \<open>2^63\<close> and every chunk budget: concatenating the batches of \<open>binPackFiles\<close> in
  order yields the input sequence; the batches are the images of a split \<open>gs\<close> of
  the input into non-empty groups, each batch carrying the paths of its group and the
  sum of their sizes. The split is the one of the rule: the current batch is sealed
  exactly when its accumulated size is positive and adding the next file would exceed
  the budget. So every batch but the last has positive size, and its size plus the size
  of the first file of the next batch exceeds the budget; inside a batch no file but
  the first comes after files of positive accumulated size that it would take over the
  budget; a file of positive size larger than the budget is the last file of its batch
  and the batch has exactly its size (its companions are zero-byte files before it).
  When all sizes are positive the split is the one of the specification's rule (seal
  when the current batch is non-empty and adding the next file would exceed the
  budget), and every file larger than the budget is alone in its batch.
\<close>

theorem C2_binPackFiles:
  assumes nonneg: "\<forall>f \<in> set fs. 0 \<le> FileSize f"
    and range: "sum_list (map FileSize fs) < 2 ^ 63"
  shows "concat (map files (binPackFiles config fs)) = map Path fs
    \<and> (\<exists>gs. concat gs = fs \<and> (\<forall>g \<in> set gs. g \<noteq> [])
          \<and> binPackFiles config fs
              = map (\<lambda>g. \<lparr>files = map Path g, size = sum_list (map FileSize g)\<rparr>) gs
          \<and> (\<forall>i. Suc i < length gs \<longrightarrow>
                targetSizeOf config
                  < sum_list (map FileSize (gs ! i)) + FileSize (hd (gs ! Suc i)))
          \<and> (\<forall>g \<in> set gs. \<forall>j < length g.
                targetSizeOf config < FileSize (g ! j) \<and> 0 < FileSize (g ! j) \<longrightarrow>
                Suc j = length g \<and> sum_list (map FileSize g) = FileSize (g ! j))
          \<and> ((\<forall>f \<in> set fs. 0 < FileSize f) \<longrightarrow>
                gs = spec_pack (targetSizeOf config) fs
                \<and> (\<forall>g \<in> set gs. \<forall>f \<in> set g. targetSizeOf config < FileSize f \<longrightarrow> g = [f]))
          \<and> gs = groupsOf (targetSizeOf config) fs
          \<and> (\<forall>i. Suc i < length gs \<longrightarrow> 0 < sum_list (map FileSize (gs ! i)))
          \<and> (\<forall>g \<in> set gs. \<forall>j. 0 < j \<and> j < length g \<longrightarrow>
                \<not> (0 < sum_list (map FileSize (take j g))
                   \<and> targetSizeOf config
                       < sum_list (map FileSize (take j g)) + FileSize (g ! j))))"
proof -
  let ?C = "targetSizeOf config"
  let ?gs = "groupsOf ?C fs"
  have rng: "sizeOf fs < 2 ^ 63" using range by (simp add: sizeOf_def)
  have eq: "binPackFiles config fs = map toBatchInfo ?gs"
    by (rule binPackFiles_groups [OF nonneg rng])
  note props = groupsOf_props [OF nonneg, of ?C]
  have c1: "concat (map files (binPackFiles config fs)) = map Path fs"
  proof -
    have "concat (map files (map toBatchInfo ?gs)) = map Path (concat ?gs)"
      by (simp add: map_concat comp_def)
    with eq props(1) show ?thesis by simp
  qed
  have c3: "binPackFiles config fs
      = map (\<lambda>g. \<lparr>files = map Path g, size = sum_list (map FileSize g)\<rparr>) ?gs"
    using eq by (simp add: toBatchInfo_def sizeOf_def)
  have c4: "\<forall>i. Suc i < length ?gs \<longrightarrow>
      ?C < sum_list (map FileSize (?gs ! i)) + FileSize (hd (?gs ! Suc i))"
    using props(3) by (simp add: consecutive_def sizeOf_def)
  have c5: "\<forall>g \<in> set ?gs. \<forall>j < length g.
      ?C < FileSize (g ! j) \<and> 0 < FileSize (g ! j) \<longrightarrow>
      Suc j = length g \<and> sum_list (map FileSize g) = FileSize (g ! j)"
    using props(4) by (simp add: bigLast_def sizeOf_def)
  have c6: "(\<forall>f \<in> set fs. 0 < FileSize f) \<longrightarrow>
      ?gs = spec_pack ?C fs
      \<and> (\<forall>g \<in> set ?gs. \<forall>f \<in> set g. ?C < FileSize f \<longrightarrow> g = [f])"
  proof (intro impI conjI ballI)
    assume pos: "\<forall>f \<in> set fs. 0 < FileSize f"
    show "?gs = spec_pack ?C fs" by (rule groupsOf_spec [OF pos])
    fix g f assume g: "g \<in> set ?gs" and f: "f \<in> set g" and big: "?C < FileSize f"
    have "set g \<subseteq> set fs"
    proof -
      have "set g \<subseteq> set (concat ?gs)" using g by auto
      then show ?thesis by (simp only: props(1))
    qed
    with pos have "\<forall>f \<in> set g. 0 < FileSize f" by auto
    with props(4) g f big show "g = [f]"
      by (intro bigLast_positive_single [of ?C g f]) auto
  qed
  have c7: "?gs = groupsOf ?C fs" by (rule refl)
  have c8: "\<forall>i. Suc i < length ?gs \<longrightarrow> 0 < sum_list (map FileSize (?gs ! i))"
    using groupsOf_seal(2) [OF nonneg, of ?C] by (simp add: sizeOf_def)
  have c9: "\<forall>g \<in> set ?gs. \<forall>j. 0 < j \<and> j < length g \<longrightarrow>
      \<not> (0 < sum_list (map FileSize (take j g))
         \<and> ?C < sum_list (map FileSize (take j g)) + FileSize (g ! j))"
    using groupsOf_seal(1) [OF nonneg, of ?C] by (simp add: unsealed_inside_def sizeOf_def)
  have c0: "concat ?gs = fs" by (rule props(1))
  have c2: "\<forall>g \<in> set ?gs. g \<noteq> []" by (rule props(2))
  show ?thesis
    by (rule conjI [OF c1], rule exI [of _ ?gs], intro conjI) (fact c0 c2 c3 c4 c5 c6 c7 c8 c9)+
qed

text \<open>
  The bin-pack scenario of the specification (six files of 5, 3, 7, 2, 15 and 1 MiB,
  budget 10 MiB) as an instance.
\<close>

theorem C2_binPackFiles_witness:
  "sum_list (map FileSize scenario_files) < 2 ^ 63
   \<and> list_all (\<lambda>f. 0 < FileSize f) scenario_files
   \<and> targetSizeOf (DefaultConfig\<lparr>ChunkSizeMB := 10\<rparr>) = 10485760
   \<and> binPackFiles (DefaultConfig\<lparr>ChunkSizeMB := 10\<rparr>) scenario_files
       = [\<lparr>files = [''file1.txt'', ''file2.txt''], size = 8388608\<rparr>,
          \<lparr>files = [''file3.txt'', ''file4.txt''], size = 9437184\<rparr>,
          \<lparr>files = [''file5.txt''], size = 15728640\<rparr>,
          \<lparr>files = [''file6.txt''], size = 1048576\<rparr>]
   \<and> concat (map files (binPackFiles (DefaultConfig\<lparr>ChunkSizeMB := 10\<rparr>) scenario_files))
       = map Path scenario_files"
proof -
  have h1: "\<forall>f \<in> set scenario_files. 0 \<le> FileSize f"
    by (simp add: scenario_files_def)
  have h2: "sum_list (map FileSize scenario_files) < 2 ^ 63"
    by (simp add: scenario_files_def)
  have t: "targetSizeOf (DefaultConfig\<lparr>ChunkSizeMB := 10\<rparr>) = 10485760"
    by (simp add: targetSizeOf_def DefaultConfig_def i64_def)
  have c: "concat (map files (binPackFiles (DefaultConfig\<lparr>ChunkSizeMB := 10\<rparr>) scenario_files))
       = map Path scenario_files"
    using C2_binPackFiles [OF h1 h2, of "DefaultConfig\<lparr>ChunkSizeMB := 10\<rparr>"] by (rule conjunct1)
  have b: "binPackFiles (DefaultConfig\<lparr>ChunkSizeMB := 10\<rparr>) scenario_files
       = [\<lparr>files = [''file1.txt'', ''file2.txt''], size = 8388608\<rparr>,
          \<lparr>files = [''file3.txt'', ''file4.txt''], size = 9437184\<rparr>,
          \<lparr>files = [''file5.txt''], size = 15728640\<rparr>,
          \<lparr>files = [''file6.txt''], size = 1048576\<rparr>]"
    by (simp add: binPackFiles_def t scenario_files_def emptyBatch_def i64_def)
  have p: "list_all (\<lambda>f. 0 < FileSize f) scenario_files"
    by (simp add: scenario_files_def)
  from h2 p t b c show ?thesis by (intro conjI)
qed

text \<open>
  C2 (as stated, refuted). With a zero-byte file first, the current batch is non-empty
  and adding the next file (2 MiB, over a budget of 1 MiB) would exceed the budget, yet
  the source's guard \<open>currentBatch.size > 0\<close> does not seal: both files land in one
  batch, and the file larger than the budget does not occupy its own batch. The rule
  as the claim words it gives two batches.
\<close>

theorem C2_zero_size_counterexample:
  "list_all (\<lambda>f. 0 \<le> FileSize f) zero_then_big
   \<and> targetSizeOf (DefaultConfig\<lparr>ChunkSizeMB := 1\<rparr>) = 1048576
   \<and> binPackFiles (DefaultConfig\<lparr>ChunkSizeMB := 1\<rparr>) zero_then_big
       = [\<lparr>files = [''empty.txt'', ''big.bin''], size = 2097152\<rparr>]
   \<and> map (map Path) (spec_pack 1048576 zero_then_big) = [[''empty.txt''], [''big.bin'']]"
  by (simp add: zero_then_big_def targetSizeOf_def DefaultConfig_def binPackFiles_def
      emptyBatch_def i64_def spec_pack_def)

section \<open>Location parsing: results\<close>

lemma parseLocation_total: "\<exists>h p. parseLocation loc = Inr (h, p)"
  by (simp add: parseLocation_def)


lemma takeWhile_neq_split: "c \<notin> set u \<Longrightarrow> takeWhile (\<lambda>x. x \<noteq> c) (u @ c # r) = u"
  by (induction u) auto

lemma dropWhile_neq_split: "c \<notin> set u \<Longrightarrow> dropWhile (\<lambda>x. x \<noteq> c) (u @ c # r) = c # r"
  by (induction u) auto

lemma Index_split: "c \<notin> set u \<Longrightarrow> Index (u @ c # r) c = int (length u)"
  by (simp add: Index_def takeWhile_neq_split)

lemma Index_absent: "c \<notin> set s \<Longrightarrow> Index s c = - 1"
  by (simp add: Index_def)

lemma Index_nonneg_iff: "(Index s c = - 1) = (c \<notin> set s)"
  by (simp add: Index_def)

lemma SplitN2_split: "c \<notin> set u \<Longrightarrow> SplitN2 (u @ c # r) c = [u, r]"
  by (simp add: SplitN2_def takeWhile_neq_split dropWhile_neq_split)

lemma split_first: "c \<in> set s \<Longrightarrow> \<exists>u r. s = u @ c # r \<and> c \<notin> set u"
  by (metis split_list_first)

lemma parseLocation_user_host:
  assumes "CHR ''@'' \<notin> set u" "CHR '':'' \<notin> set u" "CHR '':'' \<notin> set h"
  shows "parseLocation (u @ ''@'' @ h @ '':'' @ p) = Inr (h, p)"
proof -
  let ?loc = "u @ CHR ''@'' # h @ CHR '':'' # p"
  have a: "Index ?loc CHR ''@'' = int (length u)"
    using assms(1) by (rule Index_split)
  have "?loc = (u @ CHR ''@'' # h) @ CHR '':'' # p" by simp
  moreover have "CHR '':'' \<notin> set (u @ CHR ''@'' # h)" using assms by simp
  ultimately have c: "Index ?loc CHR '':'' = int (length (u @ CHR ''@'' # h))"
    by (metis Index_split)
  show ?thesis
    by (simp add: parseLocation_def Contains_def a c slice_def sliceFrom_def nat_add_distrib)
qed

lemma parseLocation_host_path:
  assumes "CHR '':'' \<notin> set h" "CHR ''@'' \<notin> set h" "\<not> HasPrefix (h @ '':'' @ p) ''/''"
  shows "parseLocation (h @ '':'' @ p) = Inr (h, p)"
proof -
  let ?loc = "h @ CHR '':'' # p"
  have c: "Index ?loc CHR '':'' = int (length h)"
    using assms(1) by (rule Index_split)
  have a: "Index ?loc CHR ''@'' = - 1 \<or> Index ?loc CHR ''@'' > int (length h)"
  proof (cases "CHR ''@'' \<in> set p")
    case False
    with assms(2) show ?thesis by (simp add: Index_def)
  next
    case True
    then obtain v r where p: "p = v @ CHR ''@'' # r" "CHR ''@'' \<notin> set v"
      using split_first by metis
    have "?loc = (h @ CHR '':'' # v) @ CHR ''@'' # r" using p by simp
    moreover have "CHR ''@'' \<notin> set (h @ CHR '':'' # v)" using p assms(2) by simp
    ultimately have "Index ?loc CHR ''@'' = int (length (h @ CHR '':'' # v))"
      by (metis Index_split)
    then show ?thesis by simp
  qed
  have s: "SplitN2 ?loc CHR '':'' = [h, p]"
    using assms(1) by (rule SplitN2_split)
  from a assms(3) show ?thesis
    by (auto simp: parseLocation_def Contains_def c s Index_nonneg_iff)
qed

lemma parseLocation_no_colon:
  assumes "CHR '':'' \<notin> set loc"
  shows "parseLocation loc = Inr ([], loc)"
  using assms by (simp add: parseLocation_def Contains_def)

lemma parseLocation_absolute:
  assumes "CHR '':'' \<notin> set h" "CHR ''@'' \<notin> set h" "HasPrefix (h @ '':'' @ p) ''/''"
  shows "parseLocation (h @ '':'' @ p) = Inr ([], h @ '':'' @ p)"
proof -
  let ?loc = "h @ CHR '':'' # p"
  have c: "Index ?loc CHR '':'' = int (length h)"
    using assms(1) by (rule Index_split)
  have a: "Index ?loc CHR ''@'' = - 1 \<or> Index ?loc CHR ''@'' > int (length h)"
  proof (cases "CHR ''@'' \<in> set p")
    case False
    with assms(2) show ?thesis by (simp add: Index_def)
  next
    case True
    then obtain v r where p: "p = v @ CHR ''@'' # r" "CHR ''@'' \<notin> set v"
      using split_first by metis
    have "?loc = (h @ CHR '':'' # v) @ CHR ''@'' # r" using p by simp
    moreover have "CHR ''@'' \<notin> set (h @ CHR '':'' # v)" using p assms(2) by simp
    ultimately have "Index ?loc CHR ''@'' = int (length (h @ CHR '':'' # v))"
      by (metis Index_split)
    then show ?thesis by simp
  qed
  from a assms(3) show ?thesis
    by (auto simp: parseLocation_def Contains_def c Index_nonneg_iff)
qed

lemma IndexAfter_split:
  assumes "c \<notin> set h"
  shows "IndexAfter (u @ d # h @ c # p) (int (length u) + 1) c = int (length u) + 1 + int (length h)"
proof -
  have "nat (int (length u) + 1) = Suc (length u)" by simp
  then have "sliceFrom (u @ d # h @ c # p) (int (length u) + 1) = h @ c # p"
    by (simp add: sliceFrom_def)
  then show ?thesis using assms
    by (simp add: IndexAfter_def takeWhile_neq_split)
qed

lemma IndexAfter_absent:
  assumes "c \<notin> set r"
  shows "IndexAfter (u @ d # r) (int (length u) + 1) c = - 1"
proof -
  have "nat (int (length u) + 1) = Suc (length u)" by simp
  then have "sliceFrom (u @ d # r) (int (length u) + 1) = r"
    by (simp add: sliceFrom_def)
  then show ?thesis using assms by (simp add: IndexAfter_def)
qed

lemma ParseRemotePath_no_at:
  "CHR ''@'' \<notin> set s \<Longrightarrow>
   ParseRemotePath s = Inl (''invalid remote path format: expected user@host:path, got '' @ s)"
  by (simp add: ParseRemotePath_def Index_absent)

lemma ParseRemotePath_no_colon:
  assumes "CHR ''@'' \<notin> set u" "CHR '':'' \<notin> set r"
  shows "ParseRemotePath (u @ CHR ''@'' # r)
         = Inl (''invalid remote path format: expected user@host:path, got '' @ u @ CHR ''@'' # r)"
  using assms
  by (simp add: ParseRemotePath_def Index_split IndexAfter_absent Let_def)

lemma ParseRemotePath_shape:
  assumes "CHR ''@'' \<notin> set u" "CHR '':'' \<notin> set h"
  shows "ParseRemotePath (u @ CHR ''@'' # h @ CHR '':'' # p)
         = (if u = [] then Inl ''user is empty''
            else if h = [] then Inl ''host is empty''
            else if p = [] then Inl ''path is empty''
            else Inr \<lparr>User = u, Host = h, Port = 22, RemotePath = p\<rparr>)"
proof -
  let ?s = "u @ CHR ''@'' # h @ CHR '':'' # p"
  have a: "Index ?s CHR ''@'' = int (length u)"
    using assms(1) by (rule Index_split)
  have c: "IndexAfter ?s (int (length u) + 1) CHR '':'' = int (length u) + 1 + int (length h)"
    using assms(2) by (rule IndexAfter_split)
  have n1: "nat (int (length u) + 1) = Suc (length u)" by simp
  have n2: "nat (int (length u) + 1 + int (length h) + 1) = Suc (Suc (length u + length h))" by simp
  have s1: "slice ?s 0 (int (length u)) = u" by (simp add: slice_def)
  have s2: "slice ?s (int (length u) + 1) (int (length u) + 1 + int (length h)) = h"
    unfolding slice_def n1 by simp
  have s3: "sliceFrom ?s (int (length u) + 1 + int (length h) + 1) = p"
    unfolding sliceFrom_def n2 by simp
  show ?thesis
    by (simp only: ParseRemotePath_def a Let_def c s1 s2 s3) simp
qed

lemma ParseRemotePath_accepts_iff:
  "(ParseRemotePath s = Inr r) =
   (\<exists>u h p. s = u @ ''@'' @ h @ '':'' @ p \<and> CHR ''@'' \<notin> set u \<and> CHR '':'' \<notin> set h
       \<and> u \<noteq> [] \<and> h \<noteq> [] \<and> p \<noteq> []
       \<and> r = \<lparr>User = u, Host = h, Port = 22, RemotePath = p\<rparr>)"
proof
  assume ok: "ParseRemotePath s = Inr r"
  have at: "CHR ''@'' \<in> set s"
    using ok ParseRemotePath_no_at [of s] by auto
  then obtain u rest where s: "s = u @ CHR ''@'' # rest" "CHR ''@'' \<notin> set u"
    using split_first by metis
  have "CHR '':'' \<in> set rest"
    using ok ParseRemotePath_no_colon [OF s(2), of rest] s(1) by auto
  then obtain h p where rest: "rest = h @ CHR '':'' # p" "CHR '':'' \<notin> set h"
    using split_first by metis
  have sh: "ParseRemotePath s
         = (if u = [] then Inl ''user is empty''
            else if h = [] then Inl ''host is empty''
            else if p = [] then Inl ''path is empty''
            else Inr \<lparr>User = u, Host = h, Port = 22, RemotePath = p\<rparr>)"
    unfolding s(1) rest(1) by (rule ParseRemotePath_shape [OF s(2) rest(2)])
  with ok have "u \<noteq> []" "h \<noteq> []" "p \<noteq> []" "r = \<lparr>User = u, Host = h, Port = 22, RemotePath = p\<rparr>"
    by (auto split: if_splits)
  with s rest show "\<exists>u h p. s = u @ ''@'' @ h @ '':'' @ p \<and> CHR ''@'' \<notin> set u \<and> CHR '':'' \<notin> set h
       \<and> u \<noteq> [] \<and> h \<noteq> [] \<and> p \<noteq> []
       \<and> r = \<lparr>User = u, Host = h, Port = 22, RemotePath = p\<rparr>"
    by (intro exI [of _ u] exI [of _ h] exI [of _ p]) simp
next
  assume "\<exists>u h p. s = u @ ''@'' @ h @ '':'' @ p \<and> CHR ''@'' \<notin> set u \<and> CHR '':'' \<notin> set h
       \<and> u \<noteq> [] \<and> h \<noteq> [] \<and> p \<noteq> []
       \<and> r = \<lparr>User = u, Host = h, Port = 22, RemotePath = p\<rparr>"
  then obtain u h p where *: "s = u @ CHR ''@'' # h @ CHR '':'' # p" "CHR ''@'' \<notin> set u"
      "CHR '':'' \<notin> set h" "u \<noteq> []" "h \<noteq> []" "p \<noteq> []"
      "r = \<lparr>User = u, Host = h, Port = 22, RemotePath = p\<rparr>"
    by auto
  show "ParseRemotePath s = Inr r"
    unfolding *(1) using ParseRemotePath_shape [OF *(2,3), of p] *(4-7) by simp
qed


text \<open>
  C9 (as stated, refuted). \<open>parseLocation\<close> rejects nothing: a remote-looking input
  with an empty host, or with no path at all, is returned as a local path with a nil
  error, where \<open>ParseRemotePath\<close> reports an error. \<open>ParseRemotePath\<close> in turn
  rejects two of the three shapes the claim says the parser accepts: a plain path and
  \<open>host:path\<close>.
\<close>

theorem C9_parsers_counterexample:
  "parseLocation ''user@:/data'' = Inr ([], ''/data'')
   \<and> ParseRemotePath ''user@:/data'' = Inl ''host is empty''
   \<and> parseLocation ''user@host'' = Inr ([], ''user@host'')
   \<and> ParseRemotePath ''/home/user/data''
       = Inl ''invalid remote path format: expected user@host:path, got /home/user/data''
   \<and> ParseRemotePath ''example.com:/data''
       = Inl ''invalid remote path format: expected user@host:path, got example.com:/data''"
  by (simp add: parseLocation_def ParseRemotePath_def Contains_def Index_def IndexAfter_def
      slice_def sliceFrom_def HasPrefix_def SplitN2_def Let_def)


text \<open>
  C9 (amended). \<open>parseLocation\<close> never returns an error. An input
  \<open>user@host:path\<close> (no \<open>@\<close> or \<open>:\<close> in the user, no \<open>:\<close> in the host) yields
  host and path, the user being dropped; an input \<open>host:path\<close> (no \<open>:\<close> or \<open>@\<close>
  in the host) yields host and path unless it starts with \<open>/\<close>, in which case it is
  a local path; an input without \<open>:\<close> is a local path. (These cases cover every
  input: split it at its first \<open>:\<close> and the part before at its first \<open>@\<close>.)
  \<open>ParseRemotePath\<close> accepts exactly the inputs \<open>user@host:path\<close> with non-empty
  user, host and path, where the user ends at the first \<open>@\<close> and the host at the
  first \<open>:\<close> after it, and returns an error on every other input.
\<close>

theorem C9_location_parsers:
  "(\<exists>h p. parseLocation loc = Inr (h, p))
   \<and> (CHR ''@'' \<notin> set u \<and> CHR '':'' \<notin> set u \<and> CHR '':'' \<notin> set h
        \<longrightarrow> parseLocation (u @ ''@'' @ h @ '':'' @ p) = Inr (h, p))
   \<and> (CHR '':'' \<notin> set h \<and> CHR ''@'' \<notin> set h \<and> \<not> HasPrefix (h @ '':'' @ p) ''/''
        \<longrightarrow> parseLocation (h @ '':'' @ p) = Inr (h, p))
   \<and> (CHR '':'' \<notin> set h \<and> CHR ''@'' \<notin> set h \<and> HasPrefix (h @ '':'' @ p) ''/''
        \<longrightarrow> parseLocation (h @ '':'' @ p) = Inr ([], h @ '':'' @ p))
   \<and> (CHR '':'' \<notin> set loc \<longrightarrow> parseLocation loc = Inr ([], loc))
   \<and> ((ParseRemotePath loc = Inr r) =
        (\<exists>u h p. loc = u @ ''@'' @ h @ '':'' @ p \<and> CHR ''@'' \<notin> set u \<and> CHR '':'' \<notin> set h
           \<and> u \<noteq> [] \<and> h \<noteq> [] \<and> p \<noteq> []
           \<and> r = \<lparr>User = u, Host = h, Port = 22, RemotePath = p\<rparr>))"
  using parseLocation_user_host [of u h p] parseLocation_host_path [of h p]
    parseLocation_absolute [of h p] parseLocation_no_colon [of loc]
    ParseRemotePath_accepts_iff [of loc r]
  by (simp add: parseLocation_def)


theorem C9_location_parsers_witness:
  "parseLocation ''root@104.238.147.39:~/test-small-files'' = Inr (''104.238.147.39'', ''~/test-small-files'')
   \<and> parseLocation ''example.com:/data'' = Inr (''example.com'', ''/data'')
   \<and> parseLocation ''/home/user/data'' = Inr ([], ''/home/user/data'')
   \<and> parseLocation ''/mnt/a:b'' = Inr ([], ''/mnt/a:b'')
   \<and> ParseRemotePath ''root@host:/srv''
       = Inr \<lparr>User = ''root'', Host = ''host'', Port = 22, RemotePath = ''/srv''\<rparr>"
proof -
  have a: "parseLocation (''root'' @ ''@'' @ ''104.238.147.39'' @ '':'' @ ''~/test-small-files'')
      = Inr (''104.238.147.39'', ''~/test-small-files'')"
    using C9_location_parsers [of _ "''root''" "''104.238.147.39''" "''~/test-small-files''"] by simp
  have b: "parseLocation (''example.com'' @ '':'' @ ''/data'') = Inr (''example.com'', ''/data'')"
    using C9_location_parsers [of _ _ "''example.com''" "''/data''"] by (simp add: HasPrefix_def)
  have c: "parseLocation ''/home/user/data'' = Inr ([], ''/home/user/data'')"
    using C9_location_parsers [of "''/home/user/data''"] by simp
  have d: "parseLocation (''/mnt/a'' @ '':'' @ ''b'') = Inr ([], ''/mnt/a'' @ '':'' @ ''b'')"
    using C9_location_parsers [of _ _ "''/mnt/a''" "''b''"] by (simp add: HasPrefix_def)
  have e: "ParseRemotePath ''root@host:/srv''
       = Inr \<lparr>User = ''root'', Host = ''host'', Port = 22, RemotePath = ''/srv''\<rparr>"
  proof -
    have "\<exists>u h p. ''root@host:/srv'' = u @ ''@'' @ h @ '':'' @ p \<and> CHR ''@'' \<notin> set u \<and> CHR '':'' \<notin> set h
           \<and> u \<noteq> [] \<and> h \<noteq> [] \<and> p \<noteq> []
           \<and> \<lparr>User = ''root'', Host = ''host'', Port = 22, RemotePath = ''/srv''\<rparr> = \<lparr>User = u, Host = h, Port = 22, RemotePath = p\<rparr>"
      by (intro exI [of _ "''root''"] exI [of _ "''host''"] exI [of _ "''/srv''"]) simp
    then show ?thesis
      using C9_location_parsers [of "''root@host:/srv''" _ _ _ "\<lparr>User = ''root'', Host = ''host'', Port = 22, RemotePath = ''/srv''\<rparr>"]
      by blast
  qed
  from a b c d e show ?thesis by simp
qed

section \<open>Empty source\<close>

text \<open>
  C8 (as stated, refuted). On an enumeration that yields no file, \<open>CreateManifest\<close>
  returns the error \<open>no files found at source\<close> instead of a manifest with zero
  batches, and \<open>Transfer\<close> fails with it instead of completing successfully.
\<close>

theorem C8_empty_source_counterexample:
  "CreateManifest DefaultConfig ''manifest-1'' (\<lambda>h p. Inr []) ''/data/empty'' ''/backup''
     = Inl ''no files found at source''
   \<and> fst (Transfer NewBatchedEngine DefaultConfig empty_source_env ''/data/empty'' ''/backup'')
     = Some ''create manifest: no files found at source''"
  by (simp add: CreateManifest_def Transfer_def parseLocation_def Contains_def empty_source_env_def)


text \<open>
  C8 (amended). When the enumeration of the source yields zero files,
  \<open>CreateManifest\<close> returns the error \<open>no files found at source\<close> and no manifest,
  and \<open>Transfer\<close> returns \<open>create manifest: no files found at source\<close> with the
  engine unchanged: no manifest is stored and no buffer manager is created, so the
  buffer is never populated.
\<close>

theorem C8_empty_source:
  assumes "parseLocation source = Inr (h, p)" "enumerate env h p = Inr []"
  shows "CreateManifest config (manifestId env) (enumerate env) source destination
           = Inl ''no files found at source''
       \<and> Transfer be config env source destination
           = (Some ''create manifest: no files found at source'', be)"
  using assms by (simp add: CreateManifest_def Transfer_def)


theorem C8_empty_source_witness:
  "parseLocation ''/data/empty'' = Inr ([], ''/data/empty'')
   \<and> enumerate empty_source_env [] ''/data/empty'' = Inr []
   \<and> Transfer NewBatchedEngine DefaultConfig empty_source_env ''/data/empty'' ''/backup''
       = (Some ''create manifest: no files found at source'', NewBatchedEngine)"
proof -
  have h1: "parseLocation ''/data/empty'' = Inr ([], ''/data/empty'')"
    by (simp add: parseLocation_def Contains_def)
  have h2: "enumerate empty_source_env [] ''/data/empty'' = Inr []"
    by (simp add: empty_source_env_def)
  from C8_empty_source [OF h1 h2, of DefaultConfig "''/backup''" NewBatchedEngine] h1 h2
  show ?thesis by simp
qed

section \<open>Reservation bound\<close>

lemma i64_add_right: "i64 (a + i64 b) = i64 (a + b)"
  using i64_add_left [of b a] by (simp add: add.commute)

lemma ReleaseSpace_exact:
  "in_i64 (currentSize bm - n) \<Longrightarrow> currentSize (ReleaseSpace bm n) = currentSize bm - n"
  by (simp add: ReleaseSpace_def i64_add_right i64_id)

lemma ReleaseSpace_maxSize: "maxSize (ReleaseSpace bm n) = maxSize bm"
  by (simp add: ReleaseSpace_def)

lemma apply_buffer_op_within:
  assumes "within_max bm" "op_in_range bm op"
  shows "within_max (apply_buffer_op bm op) \<and> maxSize (apply_buffer_op bm op) = maxSize bm"
proof (cases op)
  case (Reserve n)
  with assms show ?thesis by (simp add: within_max_def ReserveSpace_def Let_def)
next
  case (Release n)
  with assms show ?thesis
    by (simp add: within_max_def ReleaseSpace_exact ReleaseSpace_maxSize)
next
  case (CleanupOp removeErr)
  with assms show ?thesis by (simp add: within_max_def Cleanup_def split: option.splits)
next
  case (Delete removeErr n)
  with assms show ?thesis
    by (cases removeErr)
      (simp_all add: within_max_def DeleteBatch_def ReleaseSpace_exact ReleaseSpace_maxSize)
qed

lemma buffer_trace_within:
  assumes "within_max bm" "run_in_range bm ops"
  shows "\<forall>s \<in> set (buffer_trace bm ops). currentSize s \<le> maxSize s \<and> maxSize s = maxSize bm"
  using assms
proof (induction ops arbitrary: bm)
  case Nil
  then show ?case by (simp add: within_max_def)
next
  case (Cons op ops)
  from Cons.prems have step: "within_max (apply_buffer_op bm op)"
      "maxSize (apply_buffer_op bm op) = maxSize bm"
    using apply_buffer_op_within [of bm op] by simp_all
  from Cons.prems(2) have rir: "run_in_range (apply_buffer_op bm op) ops" by simp
  note ih = Cons.IH [OF step(1) rir]
  show ?case
  proof
    fix s assume "s \<in> set (buffer_trace bm (op # ops))"
    then consider "s = bm" | "s \<in> set (buffer_trace (apply_buffer_op bm op) ops)"
      by auto
    then show "currentSize s \<le> maxSize s \<and> maxSize s = maxSize bm"
    proof cases
      case 1
      with Cons.prems(1) show ?thesis by (simp add: within_max_def)
    next
      case 2
      with ih have "currentSize s \<le> maxSize s \<and> maxSize s = maxSize (apply_buffer_op bm op)"
        by blast
      with step(2) show ?thesis by simp
    qed
  qed
qed

text \<open>
  C4 (as stated, refuted). The bound does not hold of every run with non-negative
  released amounts. The counter is a 64-bit integer: from the fresh manager of the
  default configuration (maximum 100 GiB), releasing \<open>2^63 - 1\<close> and then 2 wraps
  the counter around to \<open>2^63 - 1\<close>, above the maximum. And a negative
  \<open>BufferMaxSizeGB\<close> gives a manager whose counter, 0, is above its maximum before
  any operation.
\<close>

theorem C4_release_wrap_counterexample:
  "map currentSize
     (buffer_trace (NewBufferManager DefaultConfig) [Release 9223372036854775807, Release 2])
     = [0, - 9223372036854775807, 9223372036854775807]
   \<and> maxSize (NewBufferManager DefaultConfig) = 107374182400
   \<and> maxSize (last (buffer_trace (NewBufferManager DefaultConfig)
                       [Release 9223372036854775807, Release 2]))
       < currentSize (last (buffer_trace (NewBufferManager DefaultConfig)
                             [Release 9223372036854775807, Release 2]))
   \<and> maxSize (NewBufferManager (DefaultConfig\<lparr>BufferMaxSizeGB := - 1\<rparr>))
       < currentSize (NewBufferManager (DefaultConfig\<lparr>BufferMaxSizeGB := - 1\<rparr>))"
  by (simp add: NewBufferManager_def DefaultConfig_def ReleaseSpace_def i64_def)


text \<open>
  C4 (amended). \<open>ReserveSpace\<close> is a total function of the counter it loads: it
  returns true iff the 64-bit sum of the counter and the amount is at most the maximum,
  that is iff \<open>current + n \<le> max\<close> whenever the sum fits in 64 bits; on true the
  counter is that sum, on false the manager is unchanged. Consequently, from a state
  with \<open>current \<le> max\<close> and a non-negative maximum, every state of every run of
  \<open>ReserveSpace\<close>, \<open>ReleaseSpace\<close>, \<open>DeleteBatch\<close> and \<open>Cleanup\<close> satisfies
  \<open>current \<le> max\<close>, provided the released amounts are non-negative and do not
  take the counter below the 64-bit range.
\<close>

theorem C4_reservation_bound:
  "(fst (ReserveSpace bm n) = (i64 (currentSize bm + n) \<le> maxSize bm))
   \<and> (in_i64 (currentSize bm + n) \<longrightarrow>
        fst (ReserveSpace bm n) = (currentSize bm + n \<le> maxSize bm))
   \<and> (fst (ReserveSpace bm n) \<longrightarrow>
        snd (ReserveSpace bm n) = bm\<lparr>currentSize := i64 (currentSize bm + n)\<rparr>)
   \<and> (fst (ReserveSpace bm n) \<and> in_i64 (currentSize bm + n) \<longrightarrow>
        currentSize (snd (ReserveSpace bm n)) = currentSize bm + n)
   \<and> (\<not> fst (ReserveSpace bm n) \<longrightarrow> snd (ReserveSpace bm n) = bm)
   \<and> (currentSize bm \<le> maxSize bm \<and> 0 \<le> maxSize bm \<and> run_in_range bm ops \<longrightarrow>
        (\<forall>s \<in> set (buffer_trace bm ops). currentSize s \<le> maxSize s \<and> maxSize s = maxSize bm))"
proof -
  have r: "fst (ReserveSpace bm n) = (i64 (currentSize bm + n) \<le> maxSize bm)"
    by (auto simp: ReserveSpace_def Let_def)
  have r2: "in_i64 (currentSize bm + n) \<longrightarrow>
        fst (ReserveSpace bm n) = (currentSize bm + n \<le> maxSize bm)"
  proof (rule impI)
    assume a: "in_i64 (currentSize bm + n)"
    from r show "fst (ReserveSpace bm n) = (currentSize bm + n \<le> maxSize bm)"
      by (simp only: i64_id [OF a])
  qed
  have s1: "fst (ReserveSpace bm n) \<longrightarrow>
        snd (ReserveSpace bm n) = bm\<lparr>currentSize := i64 (currentSize bm + n)\<rparr>"
    by (simp add: ReserveSpace_def Let_def)
  have s2: "fst (ReserveSpace bm n) \<and> in_i64 (currentSize bm + n) \<longrightarrow>
        currentSize (snd (ReserveSpace bm n)) = currentSize bm + n"
    by (auto simp: ReserveSpace_def Let_def i64_id)
  have s3: "\<not> fst (ReserveSpace bm n) \<longrightarrow> snd (ReserveSpace bm n) = bm"
    by (simp add: ReserveSpace_def Let_def)
  have inv: "currentSize bm \<le> maxSize bm \<and> 0 \<le> maxSize bm \<and> run_in_range bm ops \<longrightarrow>
        (\<forall>s \<in> set (buffer_trace bm ops). currentSize s \<le> maxSize s \<and> maxSize s = maxSize bm)"
    using buffer_trace_within [of bm ops] unfolding within_max_def by blast
  from r r2 s1 s2 s3 inv show ?thesis by (intro conjI)
qed

theorem C4_reservation_bound_witness:
  "maxSize (NewBufferManager DefaultConfig) = 107374182400
   \<and> currentSize (NewBufferManager DefaultConfig) \<le> maxSize (NewBufferManager DefaultConfig)
   \<and> run_in_range (NewBufferManager DefaultConfig) example_ops
   \<and> map currentSize (buffer_trace (NewBufferManager DefaultConfig) example_ops)
       = [0, 52428800, 52428800, 0, 1024, 24, 0]
   \<and> list_all (\<lambda>s. currentSize s \<le> maxSize s)
        (buffer_trace (NewBufferManager DefaultConfig) example_ops)
   \<and> fst (ReserveSpace (NewBufferManager DefaultConfig) 52428800)
   \<and> \<not> fst (ReserveSpace (NewBufferManager DefaultConfig) 107374182401)"
proof -
  let ?bm = "NewBufferManager DefaultConfig"
  have m: "maxSize ?bm = 107374182400" and c: "currentSize ?bm = 0"
    by (simp_all add: NewBufferManager_def DefaultConfig_def i64_def)
  have rr: "run_in_range ?bm example_ops"
    by (simp add: example_ops_def NewBufferManager_def DefaultConfig_def ReserveSpace_def
        ReleaseSpace_def DeleteBatch_def Cleanup_def Let_def i64_def in_i64_def)
  have tr: "map currentSize (buffer_trace ?bm example_ops) = [0, 52428800, 52428800, 0, 1024, 24, 0]"
    by (simp add: example_ops_def NewBufferManager_def DefaultConfig_def ReserveSpace_def
        ReleaseSpace_def DeleteBatch_def Cleanup_def Let_def i64_def in_i64_def)
  have pre: "currentSize ?bm \<le> maxSize ?bm \<and> 0 \<le> maxSize ?bm \<and> run_in_range ?bm example_ops"
    using m c rr by simp
  note inv = C4_reservation_bound [of ?bm 0 example_ops, THEN conjunct2, THEN conjunct2, THEN conjunct2,
      THEN conjunct2, THEN conjunct2, THEN mp, OF pre]
  have la: "list_all (\<lambda>s. currentSize s \<le> maxSize s) (buffer_trace ?bm example_ops)"
    unfolding list_all_iff using inv by blast
  have i1: "in_i64 (currentSize ?bm + 52428800)" "in_i64 (currentSize ?bm + 107374182401)"
    by (simp_all add: c in_i64_def)
  have f1: "fst (ReserveSpace ?bm 52428800)"
    using C4_reservation_bound [of ?bm 52428800 "[]", THEN conjunct2, THEN conjunct1, THEN mp, OF i1(1)]
    by (simp add: m c)
  have f2: "\<not> fst (ReserveSpace ?bm 107374182401)"
    using C4_reservation_bound [of ?bm 107374182401 "[]", THEN conjunct2, THEN conjunct1, THEN mp, OF i1(2)]
    by (simp add: m c)
  from m c rr tr la f1 f2 show ?thesis by (intro conjI) simp_all
qed

section \<open>Strategy recommendation\<close>

subsection \<open>Rounding to 53 bits\<close>

lemma ilog2_bounds:
  assumes "0 < x"
  shows "2 powi (ilog2 x) \<le> x" and "x < 2 powi (ilog2 x + 1)"
proof -
  have "2 powi (ilog2 x) \<le> x \<and> x < 2 powi (ilog2 x + 1)"
  proof (cases "1 \<le> x")
    case True
    define n where "n = \<lfloor>x\<rfloor>"
    have n1: "1 \<le> n" using True by (simp add: n_def)
    then have n0: "0 < n" by simp
    have b1: "1 \<le> bitlen n" using n0 by (simp add: bitlen_alt_def)
    from bitlen_bounds [OF n0] have lo: "2 ^ nat (bitlen n - 1) \<le> n" and hi: "n < 2 ^ nat (bitlen n)"
      by simp_all
    have il: "ilog2 x = bitlen n - 1" using True by (simp add: ilog2_def n_def)
    have "(2::rat) powi (bitlen n - 1) = 2 ^ nat (bitlen n - 1)"
      using b1 by (simp add: power_int_def)
    also have "\<dots> = of_int (2 ^ nat (bitlen n - 1))" by simp
    also have "\<dots> \<le> of_int n" using lo by (simp only: of_int_le_iff)
    also have "\<dots> \<le> x" by (simp add: n_def)
    finally have A: "2 powi (ilog2 x) \<le> x" by (simp add: il)
    have "n + 1 \<le> 2 ^ nat (bitlen n)" using hi by simp
    then have "(of_int (n + 1) :: rat) \<le> of_int (2 ^ nat (bitlen n))" by (simp only: of_int_le_iff)
    moreover have "x < of_int (n + 1)" unfolding n_def by linarith
    ultimately have "x < of_int (2 ^ nat (bitlen n))" by linarith
    also have "\<dots> = 2 powi (bitlen n)" using b1 by (simp add: power_int_def)
    finally have B: "x < 2 powi (ilog2 x + 1)" by (simp add: il)
    from A B show ?thesis ..
  next
    case False
    then have x1: "x < 1" by simp
    define y where "y = 1 / x"
    have y1: "1 < y" using assms x1 by (simp add: y_def)
    define m where "m = \<lceil>y\<rceil> - 1"
    have my: "of_int m < y" "y \<le> of_int m + 1" unfolding m_def by linarith+
    have "(0::rat) < of_int m" using y1 my(2) by linarith
    then have m0: "0 < m" by simp
    define b where "b = bitlen m"
    have b1: "1 \<le> b" using m0 by (simp add: b_def bitlen_alt_def)
    from bitlen_bounds [OF m0] have lo: "2 ^ nat (b - 1) \<le> m" and hi: "m < 2 ^ nat b"
      by (simp_all add: b_def)
    have il: "ilog2 x = - b" using False by (simp add: ilog2_def y_def m_def b_def)
    have "m + 1 \<le> 2 ^ nat b" using hi by simp
    then have "(of_int (m + 1) :: rat) \<le> 2 ^ nat b"
      by (metis of_int_le_iff of_int_power of_int_numeral)
    with my(2) have yb: "y \<le> 2 ^ nat b" by simp
    have "(2::rat) ^ nat (b - 1) \<le> of_int m"
      using lo by (metis of_int_le_iff of_int_power of_int_numeral)
    with my(1) have yl: "2 ^ nat (b - 1) < y" by linarith
    have p1: "(2::rat) powi (- b) = 1 / 2 ^ nat b"
      using b1 by (simp add: power_int_def field_simps)
    have p2: "(2::rat) powi (- b + 1) = 1 / 2 ^ nat (b - 1)"
    proof (cases "b = 1")
      case True then show ?thesis by simp
    next
      case False
      with b1 have "- b + 1 < 0" by simp
      then show ?thesis by (simp add: power_int_def field_simps)
    qed
    have A: "2 powi (- b) \<le> x"
      unfolding p1 using yb assms by (simp add: y_def field_simps)
    have B: "x < 2 powi (- b + 1)"
      unfolding p2 using yl assms by (simp add: y_def field_simps)
    from A B show ?thesis by (simp add: il)
  qed
  then show "2 powi (ilog2 x) \<le> x" and "x < 2 powi (ilog2 x + 1)" by simp_all
qed


lemma round_even_error: "\<bar>of_int (round_even y) - y\<bar> \<le> 1 / 2"
  unfolding round_even_def by (auto simp: abs_if not_less) linarith+

lemma round_even_of_int: "round_even (of_int n) = n"
  by (simp add: round_even_def)

lemma round_float64_error: "\<bar>round_float64 x - x\<bar> \<le> \<bar>x\<bar> / 2 ^ 53"
proof (cases "x = 0")
  case True
  then show ?thesis by (simp add: round_float64_def)
next
  case False
  define e where "e = ilog2 \<bar>x\<bar> - 52"
  define p where "p = (2::rat) powi e"
  have p0: "0 < p" by (simp add: p_def)
  have lo: "2 powi (e + 52) \<le> \<bar>x\<bar>"
    using ilog2_bounds(1) [of "\<bar>x\<bar>"] False by (simp add: e_def)
  have pe: "(2::rat) powi (e + 52) = p * 2 ^ 52"
    by (simp add: p_def power_int_add)
  have r: "round_float64 x = of_int (round_even (x / p)) * p"
    using False by (simp add: round_float64_def e_def p_def)
  have "round_float64 x - x = (of_int (round_even (x / p)) - x / p) * p"
    using p0 by (simp add: r algebra_simps)
  then have "\<bar>round_float64 x - x\<bar> = \<bar>of_int (round_even (x / p)) - x / p\<bar> * p"
    using p0 by (simp add: abs_mult)
  also have "\<dots> \<le> (1 / 2) * p"
    using round_even_error [of "x / p"] p0 by (intro mult_right_mono) simp_all
  also have "\<dots> = (p * 2 ^ 52) / 2 ^ 53" by simp
  also have "\<dots> \<le> \<bar>x\<bar> / 2 ^ 53"
    using lo unfolding pe by (intro divide_right_mono) simp_all
  finally show ?thesis .
qed

lemma round_float64_of_int:
  assumes "\<bar>i\<bar> < 2 ^ 53"
  shows "round_float64 (of_int i) = of_int i"
proof (cases "i = 0")
  case True
  then show ?thesis by (simp add: round_float64_def)
next
  case False
  define x :: rat where "x = of_int i"
  define E where "E = ilog2 \<bar>x\<bar>"
  have x0: "0 < \<bar>x\<bar>" using False by (simp add: x_def)
  have "2 powi E \<le> \<bar>x\<bar>" unfolding E_def by (rule ilog2_bounds(1) [OF x0])
  also have "\<bar>x\<bar> < 2 ^ 53"
    using assms unfolding x_def by (metis of_int_abs of_int_less_iff of_int_power of_int_numeral)
  finally have "(2::rat) powi E < 2 powi 53" by simp
  then have E: "E < 53" by (rule power_int_le_imp_less_exp [rotated]) simp_all
  define k where "k = nat (52 - E)"
  have ek: "E - 52 = - int k" using E by (simp add: k_def)
  have q: "x / 2 powi (E - 52) = of_int (i * 2 ^ k)"
    by (simp add: ek power_int_minus x_def field_simps)
  have "round_float64 x = of_int (round_even (x / 2 powi (E - 52))) * 2 powi (E - 52)"
    using False by (simp add: round_float64_def E_def x_def)
  also have "\<dots> = of_int (i * 2 ^ k) * 2 powi (E - 52)"
    by (simp only: q round_even_of_int)
  also have "\<dots> = x"
    by (simp add: ek power_int_minus x_def field_simps)
  finally show ?thesis by (simp add: x_def)
qed


lemma round_float64_bounds:
  assumes "0 \<le> x"
  shows "x * (1 - 1 / 2 ^ 53) \<le> round_float64 x" and "round_float64 x \<le> x * (1 + 1 / 2 ^ 53)"
proof -
  have "\<bar>round_float64 x - x\<bar> \<le> x / 2 ^ 53"
    using round_float64_error [of x] assms by simp
  then have "x - x / 2 ^ 53 \<le> round_float64 x \<and> round_float64 x \<le> x + x / 2 ^ 53"
    by linarith
  then show "x * (1 - 1 / 2 ^ 53) \<le> round_float64 x" and "round_float64 x \<le> x * (1 + 1 / 2 ^ 53)"
    by (simp_all add: algebra_simps)
qed

lemma percent_value_bounds:
  assumes s: "0 \<le> s" "s \<le> t" and t: "0 < t"
  shows "100 * (of_int s / of_int t) - 200 / 2 ^ 53 \<le> percent_value s t"
    and "percent_value s t \<le> 100 * (of_int s / of_int t) + 300 / 2 ^ 53"
proof -
  define a :: rat where "a = of_int s / of_int t"
  define u :: rat where "u = 1 / 2 ^ 53"
  define q where "q = round_float64 a"
  have a0: "0 \<le> a" using s t by (simp add: a_def)
  have a1: "a \<le> 1" using s t by (simp add: a_def)
  have u0: "0 < u" and u1: "u < 1" by (simp_all add: u_def)
  have q_lo: "a * (1 - u) \<le> q" and q_hi: "q \<le> a * (1 + u)"
    unfolding q_def u_def using round_float64_bounds [OF a0] by simp_all
  have q0: "0 \<le> q"
  proof -
    have "0 \<le> a * (1 - u)" using a0 u1 by (intro mult_nonneg_nonneg) simp_all
    with q_lo show ?thesis by linarith
  qed
  have q100: "0 \<le> q * 100" using q0 by simp
  have r_lo: "q * 100 * (1 - u) \<le> percent_value s t" and r_hi: "percent_value s t \<le> q * 100 * (1 + u)"
    unfolding percent_value_def u_def using round_float64_bounds [OF q100] by (simp_all add: q_def a_def)
  have au: "a * u \<le> u" using a1 u0 by (simp add: mult_le_cancel_right1)
  have auu: "a * u * u \<le> u"
  proof -
    have "a * u * u \<le> 1 * u * u" using a1 u0 by (intro mult_right_mono) simp_all
    also have "\<dots> \<le> 1 * u" using u0 u1 by simp
    finally show ?thesis by simp
  qed
  have auu0: "0 \<le> a * u * u" using a0 u0 by simp
  have "a * (1 - u) * (100 * (1 - u)) \<le> q * (100 * (1 - u))"
    using q_lo u1 by (intro mult_right_mono) simp_all
  then have "a * (1 - u) * (100 * (1 - u)) \<le> percent_value s t" using r_lo by (simp add: mult.assoc)
  moreover have "a * (1 - u) * (100 * (1 - u)) = 100 * a - 200 * (a * u) + 100 * (a * u * u)"
    by (simp add: algebra_simps)
  ultimately have "100 * a - 200 * u \<le> percent_value s t" using au auu0 by linarith
  then show "100 * (of_int s / of_int t) - 200 / 2 ^ 53 \<le> percent_value s t"
    by (simp add: a_def u_def)
  have "q * (100 * (1 + u)) \<le> a * (1 + u) * (100 * (1 + u))"
    using q_hi u0 by (intro mult_right_mono) simp_all
  then have "percent_value s t \<le> a * (1 + u) * (100 * (1 + u))" using r_hi by (simp add: mult.assoc)
  moreover have "a * (1 + u) * (100 * (1 + u)) = 100 * a + 200 * (a * u) + 100 * (a * u * u)"
    by (simp add: algebra_simps)
  ultimately have "percent_value s t \<le> 100 * a + 300 * u" using au auu by linarith
  then show "percent_value s t \<le> 100 * (of_int s / of_int t) + 300 / 2 ^ 53"
    by (simp add: a_def u_def)
qed


lemma ilog2_unique:
  assumes "2 powi E \<le> y" "y < 2 powi (E + 1)"
  shows "ilog2 y = E"
proof -
  have y0: "0 < y" using assms(1) by (rule less_le_trans [rotated]) simp
  have "(2::rat) powi (ilog2 y) < 2 powi (E + 1)"
    using ilog2_bounds(1) [OF y0] assms(2) by linarith
  then have "ilog2 y < E + 1"
    by (metis power_int_increasing not_less one_le_numeral leD)
  moreover have "(2::rat) powi E < 2 powi (ilog2 y + 1)"
    using ilog2_bounds(2) [OF y0] assms(1) by linarith
  then have "E < ilog2 y + 1"
    by (metis power_int_increasing not_less one_le_numeral leD)
  ultimately show ?thesis by simp
qed

lemma round_float64_at:
  assumes "2 powi (e + 52) \<le> \<bar>x\<bar>" "\<bar>x\<bar> < 2 powi (e + 53)"
  shows "round_float64 x = of_int (round_even (x / 2 powi e)) * 2 powi e"
proof -
  have "ilog2 \<bar>x\<bar> = e + 52"
    using assms by (intro ilog2_unique) (simp_all add: add.commute add.left_commute)
  moreover have "x \<noteq> 0"
  proof -
    have "(0::rat) < 2 powi (e + 52)" by simp
    with assms(1) have "0 < \<bar>x\<bar>" by linarith
    then show ?thesis by simp
  qed
  ultimately show ?thesis by (simp add: round_float64_def)
qed

lemma round_even_div:
  assumes "0 < d"
  shows "round_even (of_int n / of_int d) =
     (if 2 * (n mod d) < d then n div d
      else if 2 * (n mod d) > d then n div d + 1
      else if even (n div d) then n div d else n div d + 1)"
proof -
  have fl: "\<lfloor>(of_int n / of_int d :: rat)\<rfloor> = n div d"
    by (rule floor_divide_of_int_eq)
  have d0: "(0::rat) < of_int d" using assms by simp
  have "(of_int n :: rat) = of_int (n div d) * of_int d + of_int (n mod d)"
    by (metis of_int_add of_int_mult div_mult_mod_eq)
  then have "(of_int n :: rat) / of_int d = of_int (n div d) + of_int (n mod d) / of_int d"
    using d0 by (simp add: field_simps)
  then have fr: "2 * ((of_int n :: rat) / of_int d - of_int (n div d)) = of_int (2 * (n mod d)) / of_int d"
    by simp
  have lt: "(of_int (2 * (n mod d)) / (of_int d :: rat) < 1) = (2 * (n mod d) < d)"
    using d0 by (simp add: field_simps) (metis of_int_less_iff of_int_mult of_int_numeral)
  have gt: "(1 < of_int (2 * (n mod d)) / (of_int d :: rat)) = (d < 2 * (n mod d))"
    using d0 by (simp add: field_simps) (metis of_int_less_iff of_int_mult of_int_numeral)
  show ?thesis
    unfolding round_even_def fl fr lt gt by simp
qed

lemma round_float64_half: "round_float64 (1 / 2) = 1 / 2"
proof -
  have "round_float64 (1 / 2) = of_int (round_even ((1 / 2) / 2 powi (- 53))) * 2 powi (- 53)"
    by (rule round_float64_at) (simp_all add: power_int_minus)
  also have "(1 / 2 :: rat) / 2 powi (- 53) = of_int 4503599627370496"
    by (simp add: power_int_minus)
  finally show ?thesis by (simp only: round_even_of_int) (simp add: power_int_minus)
qed

lemma round_float64_four_fifths: "round_float64 (4 / 5) = 3602879701896397 / 4503599627370496"
proof -
  have "round_float64 (4 / 5) = of_int (round_even ((4 / 5) / 2 powi (- 53))) * 2 powi (- 53)"
    by (rule round_float64_at) (simp_all add: power_int_minus)
  also have "(4 / 5 :: rat) / 2 powi (- 53) = of_int 36028797018963968 / of_int 5"
    by (simp add: power_int_minus)
  also have "round_even (of_int 36028797018963968 / of_int 5) = 7205759403792794"
    by (subst round_even_div) simp_all
  finally show ?thesis by (simp add: power_int_minus)
qed

lemma round_float64_eighty:
  "round_float64 (3602879701896397 / 4503599627370496 * 100) = 80"
proof -
  let ?x = "3602879701896397 / 4503599627370496 * 100 :: rat"
  have "round_float64 ?x = of_int (round_even (?x / 2 powi (- 46))) * 2 powi (- 46)"
    by (rule round_float64_at) (simp_all add: power_int_minus)
  also have "?x / 2 powi (- 46) = of_int 90071992547409925 / of_int 16"
    by (simp add: power_int_minus)
  also have "round_even (of_int 90071992547409925 / of_int 16) = 5629499534213120"
    by (subst round_even_div) simp_all
  finally show ?thesis by (simp add: power_int_minus)
qed

lemma round_float64_eleven_twentieths:
  "round_float64 (11 / 20) = 2476979795053773 / 4503599627370496"
proof -
  have "round_float64 (11 / 20) = of_int (round_even ((11 / 20) / 2 powi (- 53))) * 2 powi (- 53)"
    by (rule round_float64_at) (simp_all add: power_int_minus)
  also have "(11 / 20 :: rat) / 2 powi (- 53) = of_int 24769797950537728 / of_int 5"
    by (simp add: power_int_minus)
  also have "round_even (of_int 24769797950537728 / of_int 5) = 4953959590107546"
    by (subst round_even_div) simp_all
  finally show ?thesis by (simp add: power_int_minus)
qed

lemma round_float64_fifty_five:
  "round_float64 (2476979795053773 / 4503599627370496 * 100) = 7740561859543041 / 140737488355328"
proof -
  let ?x = "2476979795053773 / 4503599627370496 * 100 :: rat"
  have "round_float64 ?x = of_int (round_even (?x / 2 powi (- 47))) * 2 powi (- 47)"
    by (rule round_float64_at) (simp_all add: power_int_minus)
  also have "?x / 2 powi (- 47) = of_int 61924494876344325 / of_int 8"
    by (simp add: power_int_minus)
  also have "round_even (of_int 61924494876344325 / of_int 8) = 7740561859543041"
    by (subst round_even_div) simp_all
  finally show ?thesis by (simp add: power_int_minus)
qed


lemma percent_value_gt_50:
  assumes s: "0 \<le> s" "s \<le> t" and t: "0 < t" "t < 2 ^ 49"
  shows "(50 < percent_value s t) = (50 / 100 < (of_int s / of_int t :: rat))"
proof -
  define S T :: rat where "S = of_int s" and "T = of_int t"
  have T0: "0 < T" using t by (simp add: T_def)
  have "(of_int t :: rat) < of_int (2 ^ 49)" using t(2) by (simp only: of_int_less_iff)
  then have T49: "T < 2 ^ 49" by (simp add: T_def)
  define u :: rat where "u = 1 / 2 ^ 53"
  have gap: "800 * u < 50 / T"
  proof -
    have "(50::rat) / 2 ^ 49 < 50 / T" using T0 T49 by (intro divide_strict_left_mono) simp_all
    then show ?thesis by (simp add: u_def)
  qed
  have b: "100 * (S / T) - 200 * u \<le> percent_value s t" "percent_value s t \<le> 100 * (S / T) + 300 * u"
    using percent_value_bounds [OF s t(1)] by (simp_all add: S_def T_def u_def)
  have u0: "0 < u" by (simp add: u_def)
  consider "t < 2 * s" | "t = 2 * s" | "2 * s < t" by linarith
  then show ?thesis
  proof cases
    case 1
    then have "t + 1 \<le> 2 * s" by simp
    then have "(of_int (t + 1) :: rat) \<le> of_int (2 * s)" by (simp only: of_int_le_iff)
    then have i: "T + 1 \<le> 2 * S" by (simp add: S_def T_def)
    have "50 + 50 / T = 50 * ((T + 1) / T)" using T0 by (simp add: field_simps)
    also have "\<dots> \<le> 50 * ((2 * S) / T)"
      using i T0 by (intro mult_left_mono divide_right_mono) simp_all
    finally have "50 + 50 / T \<le> 100 * (S / T)" by simp
    with b(1) gap u0 have "50 < percent_value s t" by linarith
    moreover have "50 / 100 < S / T" using i T0 by (simp add: field_simps)
    ultimately show ?thesis by (simp add: S_def T_def)
  next
    case 2
    then have "(of_int s / of_int t :: rat) = 1 / 2" using t(1) by simp
    then have "percent_value s t = 50"
      by (simp add: percent_value_def round_float64_half) (use round_float64_of_int [of 50] in simp)
    with 2 t(1) show ?thesis by simp
  next
    case 3
    then have "2 * s \<le> t - 1" by simp
    then have "(of_int (2 * s) :: rat) \<le> of_int (t - 1)" by (simp only: of_int_le_iff)
    then have i: "2 * S \<le> T - 1" by (simp add: S_def T_def)
    have "50 * ((2 * S) / T) \<le> 50 * ((T - 1) / T)"
      using i T0 by (intro mult_left_mono divide_right_mono) simp_all
    also have "\<dots> = 50 - 50 / T" using T0 by (simp add: field_simps)
    finally have "100 * (S / T) \<le> 50 - 50 / T" by simp
    with b(2) gap u0 have "percent_value s t < 50" by linarith
    moreover have "\<not> 50 / 100 < S / T" using i T0 by (simp add: field_simps)
    ultimately show ?thesis by (simp add: S_def T_def)
  qed
qed

lemma percent_value_gt_80:
  assumes s: "0 \<le> s" "s \<le> t" and t: "0 < t" "t < 2 ^ 49"
  shows "(80 < percent_value s t) = (80 / 100 < (of_int s / of_int t :: rat))"
proof -
  define S T :: rat where "S = of_int s" and "T = of_int t"
  have T0: "0 < T" using t by (simp add: T_def)
  have "(of_int t :: rat) < of_int (2 ^ 49)" using t(2) by (simp only: of_int_less_iff)
  then have T49: "T < 2 ^ 49" by (simp add: T_def)
  define u :: rat where "u = 1 / 2 ^ 53"
  have gap: "320 * u < 20 / T"
  proof -
    have "(20::rat) / 2 ^ 49 < 20 / T" using T0 T49 by (intro divide_strict_left_mono) simp_all
    then show ?thesis by (simp add: u_def)
  qed
  have b: "100 * (S / T) - 200 * u \<le> percent_value s t" "percent_value s t \<le> 100 * (S / T) + 300 * u"
    using percent_value_bounds [OF s t(1)] by (simp_all add: S_def T_def u_def)
  have u0: "0 < u" by (simp add: u_def)
  consider "4 * t < 5 * s" | "4 * t = 5 * s" | "5 * s < 4 * t" by linarith
  then show ?thesis
  proof cases
    case 1
    then have "4 * t + 1 \<le> 5 * s" by simp
    then have "(of_int (4 * t + 1) :: rat) \<le> of_int (5 * s)" by (simp only: of_int_le_iff)
    then have i: "4 * T + 1 \<le> 5 * S" by (simp add: S_def T_def)
    have "80 + 20 / T = 20 * ((4 * T + 1) / T)" using T0 by (simp add: field_simps)
    also have "\<dots> \<le> 20 * ((5 * S) / T)"
      using i T0 by (intro mult_left_mono divide_right_mono) simp_all
    finally have "80 + 20 / T \<le> 100 * (S / T)" by simp
    with b(1) gap u0 have "80 < percent_value s t" by linarith
    moreover have "80 / 100 < S / T" using i T0 by (simp add: field_simps)
    ultimately show ?thesis by (simp add: S_def T_def)
  next
    case 2
    then have "(of_int (4 * t) :: rat) = of_int (5 * s)" by simp
    then have "4 * T = 5 * S" by (simp add: S_def T_def)
    then have st: "S / T = 4 / 5" using T0 by (simp add: field_simps)
    have "percent_value s t = round_float64 (round_float64 (S / T) * 100)"
      by (simp add: percent_value_def S_def T_def)
    then have "percent_value s t = 80"
      by (simp only: st round_float64_four_fifths round_float64_eighty)
    moreover have "\<not> 80 / 100 < S / T" using st by simp
    ultimately show ?thesis by (simp add: S_def T_def)
  next
    case 3
    then have "5 * s \<le> 4 * t - 1" by simp
    then have "(of_int (5 * s) :: rat) \<le> of_int (4 * t - 1)" by (simp only: of_int_le_iff)
    then have i: "5 * S \<le> 4 * T - 1" by (simp add: S_def T_def)
    have "20 * ((5 * S) / T) \<le> 20 * ((4 * T - 1) / T)"
      using i T0 by (intro mult_left_mono divide_right_mono) simp_all
    also have "\<dots> = 80 - 20 / T" using T0 by (simp add: field_simps)
    finally have "100 * (S / T) \<le> 80 - 20 / T" by simp
    with b(2) gap u0 have "percent_value s t < 80" by linarith
    moreover have "\<not> 80 / 100 < S / T" using i T0 by (simp add: field_simps)
    ultimately show ?thesis by (simp add: S_def T_def)
  qed
qed

subsection \<open>The percentages of \<open>recommendStrategy\<close>\<close>

lemma percentage_value:
  assumes "\<bar>n\<bar> < 2 ^ 53" "\<bar>t\<bar> < 2 ^ 53" "t \<noteq> 0"
  shows "percentage n t = Finite (percent_value n t)"
  using assms
  by (simp add: percentage_def percent_value_def float64_of_int_def round_float64_of_int)

lemma percentage_zero_total: "percentage 0 0 = NaN"
  by (simp add: percentage_def float64_of_int_def round_float64_def)

lemma fgt_percentage_default:
  assumes "0 \<le> n" "n \<le> t" "0 \<le> t" "t < 2 ^ 49"
  shows "fgt (percentage n t) (Finite 50) = (50 / 100 < (of_int n / of_int t :: rat))"
    and "fgt (percentage n t) (Finite 80) = (80 / 100 < (of_int n / of_int t :: rat))"
proof -
  have "fgt (percentage n t) (Finite 50) = (50 / 100 < (of_int n / of_int t :: rat))
      \<and> fgt (percentage n t) (Finite 80) = (80 / 100 < (of_int n / of_int t :: rat))"
  proof (cases "t = 0")
    case True
    with assms have "n = 0" by simp
    with True show ?thesis by (simp add: percentage_zero_total)
  next
    case False
    with assms have t0: "0 < t" by simp
    have "(2::int) ^ 49 < 2 ^ 53" by simp
    with assms have b: "\<bar>n\<bar> < 2 ^ 53" "\<bar>t\<bar> < 2 ^ 53" by linarith+
    have v: "percentage n t = Finite (percent_value n t)"
      by (rule percentage_value [OF b False])
    show ?thesis
      using percent_value_gt_50 [OF assms(1,2) t0 assms(4)]
        percent_value_gt_80 [OF assms(1,2) t0 assms(4)]
      by (simp add: v)
  qed
  then show "fgt (percentage n t) (Finite 50) = (50 / 100 < (of_int n / of_int t :: rat))"
    and "fgt (percentage n t) (Finite 80) = (80 / 100 < (of_int n / of_int t :: rat))"
    by simp_all
qed

lemma float_recommend_default:
  assumes "0 \<le> t" "t < 2 ^ 49" "0 \<le> s" "s \<le> t" "0 \<le> l" "l \<le> t"
  shows "float_recommend N_few N_many (Finite 80) (Finite 50) sp dp t s l
         = spec_recommend N_few N_many 80 50 sp dp t s l"
  unfolding float_recommend_def spec_recommend_def
    fgt_percentage_default(2) [OF assms(3,4,1,2)] fgt_percentage_default(1) [OF assms(5,6,1,2)]
  by simp

lemma percentage_11_of_20:
  "percentage 11 20 = Finite (7740561859543041 / 140737488355328)"
proof -
  have "percentage 11 20 = Finite (percent_value 11 20)"
    by (rule percentage_value) simp_all
  also have "percent_value 11 20 = round_float64 (round_float64 (11 / 20) * 100)"
    by (simp add: percent_value_def)
  finally show ?thesis
    by (simp only: round_float64_eleven_twentieths round_float64_fifty_five)
qed

lemma percentage_zero_count: "t \<noteq> 0 \<Longrightarrow> \<bar>t\<bar> < 2 ^ 53 \<Longrightarrow> percentage 0 t = Finite 0"
  using percentage_value [of 0 t] by (simp add: percent_value_def round_float64_def)

lemma percentage_all: "t \<noteq> 0 \<Longrightarrow> \<bar>t\<bar> < 2 ^ 53 \<Longrightarrow> percentage t t = Finite 100"
  using percentage_value [of t t] round_float64_of_int [of 1] round_float64_of_int [of 100]
  by (simp add: percent_value_def)

subsection \<open>The decision list\<close>

lemma accumulate_SourceProtocol [simp]:
  "SourceProtocol (accumulate a k sz an) = SourceProtocol an"
  by (simp add: accumulate_def Let_def)

lemma analyzeWalk_SourceProtocol:
  "analyzeWalk a k es cf an = Inr r \<Longrightarrow> SourceProtocol r = SourceProtocol an"
proof (induction es arbitrary: cf an)
  case Nil
  then show ?case by simp
next
  case (Cons e es)
  then show ?case
    by (fastforce split: option.splits if_splits)
qed

lemma analyzeLocal_SourceProtocol:
  "analyzeLocal a walk an = Inr r \<Longrightarrow> SourceProtocol r = SourceProtocol an"
  by (auto simp: analyzeLocal_def Let_def split: if_splits sum.splits
      dest: analyzeWalk_SourceProtocol)

lemma recommendStrategy_float:
  "recommendStrategy a an
   = float_recommend (fewFilesCount a) (manyFilesCount a) (smallFilePercent a)
       (largeFilePercent a) ProtocolLocal dp
       (AnalysisTotalFiles an) (SmallFiles an) (LargeFiles an)"
  by (simp add: recommendStrategy_def float_recommend_def percentage_def Let_def)

lemma recommendStrategy_cong:
  "AnalysisTotalFiles an' = AnalysisTotalFiles an \<Longrightarrow> SmallFiles an' = SmallFiles an \<Longrightarrow>
   LargeFiles an' = LargeFiles an \<Longrightarrow> recommendStrategy a an' = recommendStrategy a an"
  by (simp add: recommendStrategy_def Let_def)

lemma Analyze_remote:
  "\<not> isLocalPath source \<Longrightarrow>
   Analyze a walk source
   = Inr (zeroAnalysis\<lparr>SourceProtocol := detectProtocol source, Recommendation := StrategyRclone\<rparr>)"
  by (simp add: Analyze_def Let_def)

lemma Analyze_local:
  assumes loc: "isLocalPath source" and ok: "Analyze a walk source = Inr an"
  shows "Recommendation an = recommendStrategy a an \<and> SourceProtocol an = ProtocolLocal"
proof -
  let ?an0 = "zeroAnalysis\<lparr>SourceProtocol := detectProtocol source\<rparr>"
  from loc ok obtain r where r: "analyzeLocal a walk ?an0 = Inr r"
    by (auto simp: Analyze_def Let_def split: sum.splits failure.splits)
  have sp: "SourceProtocol r = ProtocolLocal"
    using analyzeLocal_SourceProtocol [OF r] loc by (simp add: isLocalPath_def)
  define r1 where "r1 = (if AnalysisTotalFiles r > 0
      then r\<lparr>AverageFileSize := quot (AnalysisTotalSize r) (AnalysisTotalFiles r)\<rparr> else r)"
  have an: "an = r1\<lparr>Recommendation := recommendStrategy a r1\<rparr>"
    using loc ok r by (simp add: Analyze_def Let_def r1_def)
  have "recommendStrategy a an = recommendStrategy a r1"
    unfolding an by (rule recommendStrategy_cong) simp_all
  moreover have "SourceProtocol r1 = ProtocolLocal"
    using sp by (simp add: r1_def)
  ultimately show ?thesis by (simp add: an)
qed

lemma AnalyzeTransfer_float:
  assumes ok: "AnalyzeTransfer a walk source destination = Inr an"
  shows "Recommendation an
        = float_recommend (fewFilesCount a) (manyFilesCount a) (smallFilePercent a)
            (largeFilePercent a) (detectProtocol source) (detectProtocol destination)
            (AnalysisTotalFiles an) (SmallFiles an) (LargeFiles an)
      \<and> SourceProtocol an = detectProtocol source
      \<and> DestProtocol an = detectProtocol destination"
proof -
  let ?sp = "detectProtocol source" and ?dp = "detectProtocol destination"
  show ?thesis
  proof (cases "?sp = ProtocolSSH \<and> ?dp = ProtocolSSH")
    case True
    with ok show ?thesis
      by (auto simp: AnalyzeTransfer_def Let_def float_recommend_def)
  next
    case False
    with ok obtain r where r: "Analyze a walk source = Inr r" and an: "an = r\<lparr>DestProtocol := ?dp\<rparr>"
      by (auto simp: AnalyzeTransfer_def Let_def split: sum.splits)
    show ?thesis
    proof (cases "isLocalPath source")
      case True
      from Analyze_local [OF True r]
      have "Recommendation r = recommendStrategy a r" "SourceProtocol r = ProtocolLocal"
        by simp_all
      moreover have "?sp = ProtocolLocal" using True by (simp add: isLocalPath_def)
      ultimately show ?thesis
        using recommendStrategy_float [of a r ?dp] by (simp add: an)
    next
      case nl: False
      from Analyze_remote [OF nl, of a walk] r
      have "r = zeroAnalysis\<lparr>SourceProtocol := ?sp, Recommendation := StrategyRclone\<rparr>"
        by simp
      with False nl show ?thesis
        by (simp add: an float_recommend_def isLocalPath_def)
    qed
  qed
qed

lemma AnalyzeTransfer_returns:
  "(\<exists>r. AnalyzeTransfer a walk source destination = Inr r) =
        (detectProtocol source = ProtocolLocal \<longrightarrow>
          (\<exists>r. analyzeLocal a walk (zeroAnalysis\<lparr>SourceProtocol := ProtocolLocal\<rparr>) = Inr r))"
  by (auto simp: AnalyzeTransfer_def Analyze_def isLocalPath_def Let_def
      split: sum.splits failure.splits)

subsection \<open>The counts that \<open>AnalyzeTransfer\<close> reports\<close>

lemma div_step:
  fixes cf k :: int
  assumes "0 \<le> cf" "1 \<le> k"
  shows "cf div k \<le> (cf + 1) div k"
    and "(cf + 1) mod k = 0 \<Longrightarrow> cf div k + 1 \<le> (cf + 1) div k"
    and "k * ((cf + 1) div k) \<le> cf + 1"
proof -
  show "cf div k \<le> (cf + 1) div k"
    using assms by (intro zdiv_mono1) simp_all
  show "k * ((cf + 1) div k) \<le> cf + 1"
    using assms by (metis mult.commute div_mult_mod_eq pos_mod_sign add.commute
        le_add_same_cancel2 less_le_trans zero_less_one)
  assume m: "(cf + 1) mod k = 0"
  show "cf div k + 1 \<le> (cf + 1) div k"
  proof (cases "k = 1")
    case True
    then show ?thesis by simp
  next
    case False
    with assms have k: "1 < k" by simp
    have e: "cf + 1 = k * ((cf + 1) div k)" using m by (metis mult_div_mod_eq add.right_neutral)
    have "cf = k * ((cf + 1) div k - 1) + (k - 1)"
      using e by (simp add: algebra_simps)
    then have "cf div k = (k * ((cf + 1) div k - 1) + (k - 1)) div k" by simp
    also have "\<dots> = (cf + 1) div k - 1"
      using k by (simp add: div_pos_pos_trivial)
    finally show ?thesis by simp
  qed
qed

lemma accumulate_counts:
  assumes inv: "counts_inv k cf an" and fire: "\<not> (k > 1 \<and> (cf + 1) mod k \<noteq> 0)"
    and b: "cf + 1 < 2 ^ 49"
  shows "counts_inv k (cf + 1) (accumulate a k sz an)"
proof -
  define k' where "k' = (if k > 1 then k else 1)"
  define c where "c = SmallFiles an + MediumFiles an + LargeFiles an"
  have k1: "1 \<le> k'" by (simp add: k'_def)
  from inv have nn: "0 \<le> SmallFiles an" "0 \<le> MediumFiles an" "0 \<le> LargeFiles an" "0 \<le> cf"
    and tot: "AnalysisTotalFiles an = k' * c" and cle: "c \<le> cf div k'"
    by (simp_all add: counts_inv_def k'_def c_def)
  have m0: "(cf + 1) mod k' = 0" using fire by (auto simp: k'_def)
  have c1: "c + 1 \<le> (cf + 1) div k'"
    using div_step(2) [OF nn(4) k1 m0] cle by linarith
  have up: "k' * ((cf + 1) div k') \<le> cf + 1" by (rule div_step(3) [OF nn(4) k1])
  have "k' * (c + 1) \<le> k' * ((cf + 1) div k')"
    using c1 k1 by (intro mult_left_mono) simp_all
  with up b have tb: "k' * (c + 1) < 2 ^ 49" by linarith
  have c0: "0 \<le> c" using nn by (simp add: c_def)
  have "c + 1 \<le> k' * (c + 1)" using k1 c0 by (simp add: mult_le_cancel_right1)
  with tb have cb: "c + 1 < 2 ^ 49" by linarith
  have "(2::int) ^ 49 < 2 ^ 63" by simp
  have kc0: "0 \<le> k' * (c + 1)" using k1 c0 by simp
  have r1: "in_i64 (AnalysisTotalFiles an + k')"
    using tb kc0 \<open>(2::int) ^ 49 < 2 ^ 63\<close> by (simp add: tot in_i64_def algebra_simps)
  have rS: "in_i64 (SmallFiles an + 1)" and rM: "in_i64 (MediumFiles an + 1)"
    and rL: "in_i64 (LargeFiles an + 1)"
    using nn cb \<open>(2::int) ^ 49 < 2 ^ 63\<close> by (simp_all add: in_i64_def c_def)
  have T: "i64 (AnalysisTotalFiles an + k') = k' * (c + 1)"
    using i64_id [OF r1] by (simp add: tot algebra_simps)
  define an1 where "an1 = (if k > 1
         then an\<lparr>AnalysisTotalSize := i64 (AnalysisTotalSize an + i64 (sz * k)),
                   AnalysisTotalFiles := i64 (AnalysisTotalFiles an + k)\<rparr>
         else an\<lparr>AnalysisTotalSize := i64 (AnalysisTotalSize an + sz),
                   AnalysisTotalFiles := i64 (AnalysisTotalFiles an + 1)\<rparr>)"
  have a1: "AnalysisTotalFiles an1 = k' * (c + 1)" "SmallFiles an1 = SmallFiles an"
    "MediumFiles an1 = MediumFiles an" "LargeFiles an1 = LargeFiles an"
    using T by (auto simp: an1_def k'_def)
  have acc: "accumulate a k sz an =
      (if sz < smallFileThreshold a then an1\<lparr>SmallFiles := i64 (SmallFiles an1 + 1)\<rparr>
       else if sz > largeFileThreshold a then an1\<lparr>LargeFiles := i64 (LargeFiles an1 + 1)\<rparr>
       else an1\<lparr>MediumFiles := i64 (MediumFiles an1 + 1)\<rparr>)"
    by (simp add: accumulate_def an1_def Let_def)
  have cf1: "0 \<le> cf + 1" using nn(4) by simp
  show ?thesis
    unfolding acc counts_inv_def
    using nn a1 c1 cf1 i64_id [OF rS] i64_id [OF rM] i64_id [OF rL]
    by (auto simp: k'_def c_def)
qed

lemma skip_counts:
  assumes inv: "counts_inv k cf an"
  shows "counts_inv k (cf + 1) an"
proof -
  define k' where "k' = (if k > 1 then k else 1)"
  have k1: "1 \<le> k'" by (simp add: k'_def)
  from inv have cf: "0 \<le> cf" by (simp add: counts_inv_def)
  have "cf div k' \<le> (cf + 1) div k'" by (rule div_step(1) [OF cf k1])
  with inv show ?thesis
    unfolding counts_inv_def k'_def by (auto simp: k'_def)
qed

lemma analyzeWalk_counts:
  assumes "analyzeWalk a k es cf an = Inr r" "counts_inv k cf an"
    "cf + int (length es) < 2 ^ 49"
  shows "\<exists>cf'. cf' \<le> cf + int (length es) \<and> counts_inv k cf' r"
  using assms
proof (induction es arbitrary: cf an)
  case Nil
  then show ?case by auto
next
  case (Cons e es)
  from Cons.prems(1) have ctx: "ctxErr e = None" by (auto split: option.splits)
  have cf0: "0 \<le> cf" using Cons.prems(2) by (simp add: counts_inv_def)
  have b1: "cf + 1 < 2 ^ 49" using Cons.prems(3) by simp
  have "(2::int) ^ 49 < 2 ^ 63" by simp
  with b1 cf0 have r: "i64 (cf + 1) = cf + 1"
    by (intro i64_id) (simp add: in_i64_def)
  show ?case
  proof (cases "walkErr e \<or> isDir e")
    case True
    with Cons.prems(1) ctx have "analyzeWalk a k es cf an = Inr r"
      by (auto split: if_splits)
    from Cons.IH [OF this Cons.prems(2)] Cons.prems(3)
    obtain cf' where "cf' \<le> cf + int (length es)" "counts_inv k cf' r" by auto
    then show ?thesis by (intro exI [of _ cf']) simp
  next
    case False
    have b2: "(cf + 1) + int (length es) < 2 ^ 49" using Cons.prems(3) by simp
    show ?thesis
    proof (cases "k > 1 \<and> (cf + 1) mod k \<noteq> 0")
      case True
      with False Cons.prems(1) ctx have w: "analyzeWalk a k es (cf + 1) an = Inr r"
        by (auto simp: r split: if_splits)
      from Cons.IH [OF w skip_counts [OF Cons.prems(2)] b2]
      obtain cf' where "cf' \<le> cf + 1 + int (length es)" "counts_inv k cf' r" by auto
      then show ?thesis by (intro exI [of _ cf']) simp
    next
      case fire: False
      show ?thesis
      proof (cases "infoSize e")
        case None
        with fire False Cons.prems(1) ctx have w: "analyzeWalk a k es (cf + 1) an = Inr r"
          by (auto simp: r split: if_splits)
        from Cons.IH [OF w skip_counts [OF Cons.prems(2)] b2]
        obtain cf' where "cf' \<le> cf + 1 + int (length es)" "counts_inv k cf' r" by auto
        then show ?thesis by (intro exI [of _ cf']) simp
      next
        case (Some sz)
        with fire False Cons.prems(1) ctx
        have w: "analyzeWalk a k es (cf + 1) (accumulate a k sz an) = Inr r"
          by (auto simp: r split: if_splits)
        from Cons.IH [OF w accumulate_counts [OF Cons.prems(2) fire b1] b2]
        obtain cf' where "cf' \<le> cf + 1 + int (length es)" "counts_inv k cf' r" by auto
        then show ?thesis by (intro exI [of _ cf']) simp
      qed
    qed
  qed
qed

lemma counts_inv_bounds:
  assumes "counts_inv k cf an" "cf < 2 ^ 49"
  shows "AnalysisTotalFiles an < 2 ^ 49"
    and "0 \<le> SmallFiles an" "SmallFiles an \<le> AnalysisTotalFiles an"
    and "0 \<le> LargeFiles an" "LargeFiles an \<le> AnalysisTotalFiles an"
proof -
  define k' where "k' = (if k > 1 then k else 1)"
  define c where "c = SmallFiles an + MediumFiles an + LargeFiles an"
  have k1: "1 \<le> k'" by (simp add: k'_def)
  from assms(1) have nn: "0 \<le> SmallFiles an" "0 \<le> MediumFiles an" "0 \<le> LargeFiles an" "0 \<le> cf"
    and tot: "AnalysisTotalFiles an = k' * c" and cle: "c \<le> cf div k'"
    by (simp_all add: counts_inv_def k'_def c_def)
  have c0: "0 \<le> c" using nn by (simp add: c_def)
  have "k' * c \<le> k' * (cf div k')" using cle k1 by (intro mult_left_mono) simp_all
  also have "\<dots> \<le> cf"
    using k1 nn(4) by (metis mult.commute div_mult_mod_eq pos_mod_sign add.commute
        le_add_same_cancel2 less_le_trans zero_less_one)
  finally have "k' * c \<le> cf" .
  with assms(2) show "AnalysisTotalFiles an < 2 ^ 49" by (simp add: tot)
  have "c \<le> k' * c" using k1 c0 by (simp add: mult_le_cancel_right1)
  then have cT: "c \<le> AnalysisTotalFiles an" by (simp add: tot)
  show "0 \<le> SmallFiles an" "0 \<le> LargeFiles an" by (rule nn)+
  show "SmallFiles an \<le> AnalysisTotalFiles an" "LargeFiles an \<le> AnalysisTotalFiles an"
    using cT nn by (simp_all add: c_def)
qed

lemma counts_inv_zero: "counts_inv k 0 (zeroAnalysis\<lparr>SourceProtocol := p\<rparr>)"
  by (simp add: counts_inv_def zeroAnalysis_def)

lemma analyzeLocal_counts:
  assumes "analyzeLocal a walk (zeroAnalysis\<lparr>SourceProtocol := p\<rparr>) = Inr r"
    "int (length walk) < 2 ^ 49"
  shows "\<exists>k cf. cf < 2 ^ 49 \<and> counts_inv k cf r"
proof -
  from assms(1) obtain k where "analyzeWalk a k walk 0 (zeroAnalysis\<lparr>SourceProtocol := p\<rparr>) = Inr r"
    by (auto simp: analyzeLocal_def Let_def split: if_splits sum.splits)
  from analyzeWalk_counts [OF this counts_inv_zero] assms(2)
  obtain cf' where "cf' \<le> int (length walk)" "counts_inv k cf' r" by auto
  with assms(2) show ?thesis by (intro exI [of _ k] exI [of _ cf']) simp
qed

lemma AnalyzeTransfer_counts:
  assumes ok: "AnalyzeTransfer a walk source destination = Inr an"
    and len: "int (length walk) < 2 ^ 49"
  shows "0 \<le> AnalysisTotalFiles an \<and> AnalysisTotalFiles an < 2 ^ 49
       \<and> 0 \<le> SmallFiles an \<and> SmallFiles an \<le> AnalysisTotalFiles an
       \<and> 0 \<le> LargeFiles an \<and> LargeFiles an \<le> AnalysisTotalFiles an"
proof -
  let ?ssh = "detectProtocol source = ProtocolSSH \<and> detectProtocol destination = ProtocolSSH"
  consider ?ssh | "\<not> ?ssh" "\<not> isLocalPath source" | "\<not> ?ssh" "isLocalPath source"
    by blast
  then show ?thesis
  proof cases
    case 1
    with ok have "an = zeroAnalysis\<lparr>SourceProtocol := detectProtocol source,
        DestProtocol := detectProtocol destination, Recommendation := StrategyProxy\<rparr>"
      by (simp add: AnalyzeTransfer_def Let_def)
    then show ?thesis by (simp add: zeroAnalysis_def)
  next
    case 2
    with ok have "an = zeroAnalysis\<lparr>SourceProtocol := detectProtocol source,
        Recommendation := StrategyRclone, DestProtocol := detectProtocol destination\<rparr>"
      by (simp add: AnalyzeTransfer_def Let_def Analyze_remote)
    then show ?thesis by (simp add: zeroAnalysis_def)
  next
    case 3
    then have loc: "isLocalPath source" by simp
    from 3 ok obtain r0 where r0: "Analyze a walk source = Inr r0"
      and an: "an = r0\<lparr>DestProtocol := detectProtocol destination\<rparr>"
      by (auto simp: AnalyzeTransfer_def Let_def split: sum.splits)
    from loc r0 obtain r where r: "analyzeLocal a walk (zeroAnalysis\<lparr>SourceProtocol := detectProtocol source\<rparr>) = Inr r"
      and f: "AnalysisTotalFiles r0 = AnalysisTotalFiles r" "SmallFiles r0 = SmallFiles r"
        "LargeFiles r0 = LargeFiles r"
      by (auto simp: Analyze_def Let_def split: sum.splits failure.splits if_splits)
    from analyzeLocal_counts [OF r len] obtain k cf where c: "cf < 2 ^ 49" "counts_inv k cf r"
      by blast
    note b = counts_inv_bounds [OF c(2) c(1)]
    have "0 \<le> AnalysisTotalFiles r" using b(2,3) by linarith
    with b show ?thesis by (simp add: an f)
  qed
qed

subsection \<open>Examples and the result\<close>

lemmas analyzer_eval =
  sample2_def New_def walk_of_def plainFile_def analyzeLocal_def quot_def
  accumulate_def zeroAnalysis_def counts_of_def Let_def i64_def

lemma detectProtocol_examples: "detectProtocol ''/data'' = ProtocolLocal" "detectProtocol ''/dst'' = ProtocolLocal"
  "detectProtocol ''user@a:/src'' = ProtocolSSH" "detectProtocol ''user@b:/dst'' = ProtocolSSH"
  by (simp_all add: detectProtocol_def HasPrefix_def Contains_def)

text \<open>
  Beyond 53 bits the conversion of a count is itself rounded: with the default
  percentages, 400000000000000001 small files of 500000000000000000 are more than 80%,
  but the count converts to 400000000000000000 and the percentage to exactly 80.
\<close>

lemma float64_of_int_rounded:
  "float64_of_int 400000000000000001 = Finite 400000000000000000"
  "float64_of_int 500000000000000000 = Finite 500000000000000000"
proof -
  have "round_float64 400000000000000001
      = of_int (round_even (400000000000000001 / 2 powi 6)) * 2 powi 6"
    by (rule round_float64_at) simp_all
  also have "(400000000000000001 :: rat) / 2 powi 6 = of_int 400000000000000001 / of_int 64"
    by simp
  also have "round_even (of_int 400000000000000001 / of_int 64) = 6250000000000000"
    by (subst round_even_div) simp_all
  finally show "float64_of_int 400000000000000001 = Finite 400000000000000000"
    by (simp add: float64_of_int_def)
  have "round_float64 500000000000000000
      = of_int (round_even (500000000000000000 / 2 powi 6)) * 2 powi 6"
    by (rule round_float64_at) simp_all
  also have "(500000000000000000 :: rat) / 2 powi 6 = of_int 7812500000000000"
    by simp
  finally show "float64_of_int 500000000000000000 = Finite 500000000000000000"
    by (simp only: round_even_of_int float64_of_int_def) simp
qed

lemma float_recommend_beyond_53_bits:
  "float_recommend 10 1000 (Finite 80) (Finite 50) ProtocolLocal ProtocolLocal
     500000000000000000 400000000000000001 0 = StrategyRclone"
  "spec_recommend 10 1000 80 50 ProtocolLocal ProtocolLocal
     500000000000000000 400000000000000001 0 = StrategyTar"
proof -
  have z: "float64_of_int 0 = Finite 0" by (simp add: float64_of_int_def round_float64_def)
  have q: "(400000000000000000 :: rat) / 500000000000000000 = 4 / 5" by simp
  have "fdiv (float64_of_int 400000000000000001) (float64_of_int 500000000000000000)
      = Finite (round_float64 (4 / 5))"
    by (simp only: float64_of_int_rounded q [symmetric]) simp
  then have s: "percentage 400000000000000001 500000000000000000 = Finite 80"
    by (simp only: percentage_def round_float64_four_fifths fmul.simps round_float64_eighty)
  have l: "percentage 0 500000000000000000 = Finite 0"
    by (simp add: percentage_def float64_of_int_rounded z round_float64_def)
  show "float_recommend 10 1000 (Finite 80) (Finite 50) ProtocolLocal ProtocolLocal
     500000000000000000 400000000000000001 0 = StrategyRclone"
    by (simp add: float_recommend_def s l)
  show "spec_recommend 10 1000 80 50 ProtocolLocal ProtocolLocal
     500000000000000000 400000000000000001 0 = StrategyTar"
    by (simp add: spec_recommend_def)
qed

lemma analyzeLocal_tar_example: "analyzeLocal tar_analyzer (walk_of [5, 5, 5, 5, 5]) (zeroAnalysis\<lparr>SourceProtocol := ProtocolLocal\<rparr>)
  = Inr \<lparr>AnalysisTotalSize = 25, AnalysisTotalFiles = 5, AverageFileSize = 0,
              SmallFiles = 5, MediumFiles = 0, LargeFiles = 0, SourceProtocol = ProtocolLocal,
              DestProtocol = ProtocolUnset, Recommendation = StrategyUnset\<rparr>"
  by (simp add: tar_analyzer_def analyzer_eval)

lemma recommendStrategy_tar_example: "recommendStrategy tar_analyzer
     \<lparr>AnalysisTotalSize = 25, AnalysisTotalFiles = 5, AverageFileSize = 5,
              SmallFiles = 5, MediumFiles = 0, LargeFiles = 0, SourceProtocol = ProtocolLocal,
              DestProtocol = ProtocolUnset, Recommendation = StrategyUnset\<rparr> = StrategyTar"
  by (simp add: recommendStrategy_float [of _ _ ProtocolLocal] float_recommend_def
      tar_analyzer_def New_def percentage_all)

lemma Analyze_tar_example: "Analyze tar_analyzer (walk_of [5, 5, 5, 5, 5]) ''/data''
  = Inr \<lparr>AnalysisTotalSize = 25, AnalysisTotalFiles = 5, AverageFileSize = 5,
              SmallFiles = 5, MediumFiles = 0, LargeFiles = 0, SourceProtocol = ProtocolLocal,
              DestProtocol = ProtocolUnset, Recommendation = StrategyTar\<rparr>"
  by (simp add: Analyze_def isLocalPath_def detectProtocol_examples analyzeLocal_tar_example Let_def quot_def recommendStrategy_tar_example)

lemma AnalyzeTransfer_tar_example: "AnalyzeTransfer tar_analyzer (walk_of [5, 5, 5, 5, 5]) ''/data'' ''/dst''
       = Inr \<lparr>AnalysisTotalSize = 25, AnalysisTotalFiles = 5, AverageFileSize = 5,
              SmallFiles = 5, MediumFiles = 0, LargeFiles = 0, SourceProtocol = ProtocolLocal,
              DestProtocol = ProtocolLocal, Recommendation = StrategyTar\<rparr>"
  by (simp add: AnalyzeTransfer_def detectProtocol_examples Analyze_tar_example Let_def)

lemma analyzeLocal_percent55_example:
  "analyzeLocal percent55 (walk_of eleven_large_of_twenty) (zeroAnalysis\<lparr>SourceProtocol := ProtocolLocal\<rparr>)
  = Inr \<lparr>AnalysisTotalSize = 2316304384, AnalysisTotalFiles = 20, AverageFileSize = 0,
              SmallFiles = 0, MediumFiles = 9, LargeFiles = 11, SourceProtocol = ProtocolLocal,
              DestProtocol = ProtocolUnset, Recommendation = StrategyUnset\<rparr>"
  by (simp add: percent55_def eleven_large_of_twenty_def analyzer_eval)

lemma recommendStrategy_percent55_example: "recommendStrategy percent55
     \<lparr>AnalysisTotalSize = 2316304384, AnalysisTotalFiles = 20, AverageFileSize = 115815219,
              SmallFiles = 0, MediumFiles = 9, LargeFiles = 11, SourceProtocol = ProtocolLocal,
              DestProtocol = ProtocolUnset, Recommendation = StrategyUnset\<rparr> = StrategyRsync"
  by (simp add: recommendStrategy_float [of _ _ ProtocolLocal] float_recommend_def
      percent55_def New_def percentage_zero_count percentage_11_of_20)

lemma Analyze_percent55_example: "Analyze percent55 (walk_of eleven_large_of_twenty) ''/data''
  = Inr \<lparr>AnalysisTotalSize = 2316304384, AnalysisTotalFiles = 20, AverageFileSize = 115815219,
              SmallFiles = 0, MediumFiles = 9, LargeFiles = 11, SourceProtocol = ProtocolLocal,
              DestProtocol = ProtocolUnset, Recommendation = StrategyRsync\<rparr>"
  by (simp add: Analyze_def isLocalPath_def detectProtocol_examples analyzeLocal_percent55_example
      Let_def quot_def recommendStrategy_percent55_example)


text \<open>
  C5 (as stated, refuted). With the large-file percentage set to 55 (the thresholds are
  configurable) and 11 large files among 20, the ratio 11/20 is not above 55%, so the
  list of the claim ends in rule (6), rclone. The program computes
  \<open>float64(11) / float64(20) * 100\<close>, which is 55.00000000000001 in \<open>float64\<close>
  arithmetic and above 55: it recommends rsync.
\<close>

theorem C5_rounded_ratio_counterexample:
  "AnalyzeTransfer percent55 (walk_of eleven_large_of_twenty) ''/data'' ''/dst''
     = Inr \<lparr>AnalysisTotalSize = 2316304384, AnalysisTotalFiles = 20, AverageFileSize = 115815219,
              SmallFiles = 0, MediumFiles = 9, LargeFiles = 11, SourceProtocol = ProtocolLocal,
              DestProtocol = ProtocolLocal, Recommendation = StrategyRsync\<rparr>
   \<and> fewFilesCount percent55 = 10 \<and> manyFilesCount percent55 = 1000
   \<and> smallFilePercent percent55 = Finite 80 \<and> largeFilePercent percent55 = Finite 55
   \<and> percentage 11 20 = Finite (7740561859543041 / 140737488355328)
   \<and> spec_recommend 10 1000 80 55 ProtocolLocal ProtocolLocal 20 0 11 = StrategyRclone"
  by (simp add: AnalyzeTransfer_def detectProtocol_examples Analyze_percent55_example Let_def
      percentage_11_of_20 spec_recommend_def)
    (simp add: percent55_def New_def)


text \<open>
  C5 (amended). Whenever \<open>AnalyzeTransfer\<close> returns an analysis, its recommendation is
  the one of the first applicable rule of the list, read on the protocol tags of source
  and destination and on the counts the analysis reports: both tags SSH give proxy;
  else a non-local source gives rclone; else fewer files than \<open>fewFilesCount\<close> give
  rsync; else more files than \<open>manyFilesCount\<close> with a small-file percentage above
  \<open>smallFilePercent\<close> give tar; else a large-file percentage above
  \<open>largeFilePercent\<close> gives rsync; else rclone. The two percentages are computed in
  \<open>float64\<close> arithmetic as \<open>float64(n) / float64(total) * 100\<close>. With the default
  percentages 80 and 50 and a source tree of fewer than \<open>2^49\<close> entries, the rounded
  comparisons agree with the exact ones, and the recommendation is that of the list
  with the exact ratios \<open>small/total > 80%\<close> and \<open>large/total > 50%\<close>. \<open>AnalyzeTransfer\<close> returns an analysis unless the source is
  local and the walk of the source fails. The defaults of \<open>New\<close> are 10, 1000, 80
  and 50.
\<close>

theorem C5_recommendation_order:
  "(AnalyzeTransfer a walk source destination = Inr an \<longrightarrow>
      Recommendation an
        = float_recommend (fewFilesCount a) (manyFilesCount a) (smallFilePercent a)
            (largeFilePercent a) (detectProtocol source) (detectProtocol destination)
            (AnalysisTotalFiles an) (SmallFiles an) (LargeFiles an)
      \<and> SourceProtocol an = detectProtocol source
      \<and> DestProtocol an = detectProtocol destination
      \<and> (smallFilePercent a = Finite 80 \<and> largeFilePercent a = Finite 50
           \<and> int (length walk) < 2 ^ 49 \<longrightarrow>
         Recommendation an
           = spec_recommend (fewFilesCount a) (manyFilesCount a) 80 50
               (detectProtocol source) (detectProtocol destination)
               (AnalysisTotalFiles an) (SmallFiles an) (LargeFiles an)))
   \<and> ((\<exists>r. AnalyzeTransfer a walk source destination = Inr r) =
        (detectProtocol source = ProtocolLocal \<longrightarrow>
          (\<exists>r. analyzeLocal a walk (zeroAnalysis\<lparr>SourceProtocol := ProtocolLocal\<rparr>) = Inr r)))
   \<and> fewFilesCount New = 10 \<and> manyFilesCount New = 1000
   \<and> smallFilePercent New = Finite 80 \<and> largeFilePercent New = Finite 50"
proof -
  have first: "AnalyzeTransfer a walk source destination = Inr an \<longrightarrow>
      Recommendation an
        = float_recommend (fewFilesCount a) (manyFilesCount a) (smallFilePercent a)
            (largeFilePercent a) (detectProtocol source) (detectProtocol destination)
            (AnalysisTotalFiles an) (SmallFiles an) (LargeFiles an)
      \<and> SourceProtocol an = detectProtocol source
      \<and> DestProtocol an = detectProtocol destination
      \<and> (smallFilePercent a = Finite 80 \<and> largeFilePercent a = Finite 50
           \<and> int (length walk) < 2 ^ 49 \<longrightarrow>
         Recommendation an
           = spec_recommend (fewFilesCount a) (manyFilesCount a) 80 50
               (detectProtocol source) (detectProtocol destination)
               (AnalysisTotalFiles an) (SmallFiles an) (LargeFiles an))"
  proof (rule impI)
    assume ok: "AnalyzeTransfer a walk source destination = Inr an"
    note f = AnalyzeTransfer_float [OF ok]
    have ex: "smallFilePercent a = Finite 80 \<and> largeFilePercent a = Finite 50
           \<and> int (length walk) < 2 ^ 49 \<longrightarrow>
         Recommendation an
           = spec_recommend (fewFilesCount a) (manyFilesCount a) 80 50
               (detectProtocol source) (detectProtocol destination)
               (AnalysisTotalFiles an) (SmallFiles an) (LargeFiles an)"
    proof (rule impI)
      assume h: "smallFilePercent a = Finite 80 \<and> largeFilePercent a = Finite 50
           \<and> int (length walk) < 2 ^ 49"
      then have len: "int (length walk) < 2 ^ 49" by simp
      note c = AnalyzeTransfer_counts [OF ok len]
      from c have t0: "0 \<le> AnalysisTotalFiles an" by simp
      from c have d: "float_recommend (fewFilesCount a) (manyFilesCount a) (Finite 80) (Finite 50)
            (detectProtocol source) (detectProtocol destination)
            (AnalysisTotalFiles an) (SmallFiles an) (LargeFiles an)
          = spec_recommend (fewFilesCount a) (manyFilesCount a) 80 50
            (detectProtocol source) (detectProtocol destination)
            (AnalysisTotalFiles an) (SmallFiles an) (LargeFiles an)"
        using t0 by (intro float_recommend_default) simp_all
      from f h show "Recommendation an
           = spec_recommend (fewFilesCount a) (manyFilesCount a) 80 50
               (detectProtocol source) (detectProtocol destination)
               (AnalysisTotalFiles an) (SmallFiles an) (LargeFiles an)"
        by (simp add: d)
    qed
    from f ex show "Recommendation an
        = float_recommend (fewFilesCount a) (manyFilesCount a) (smallFilePercent a)
            (largeFilePercent a) (detectProtocol source) (detectProtocol destination)
            (AnalysisTotalFiles an) (SmallFiles an) (LargeFiles an)
      \<and> SourceProtocol an = detectProtocol source
      \<and> DestProtocol an = detectProtocol destination
      \<and> (smallFilePercent a = Finite 80 \<and> largeFilePercent a = Finite 50
           \<and> int (length walk) < 2 ^ 49 \<longrightarrow>
         Recommendation an
           = spec_recommend (fewFilesCount a) (manyFilesCount a) 80 50
               (detectProtocol source) (detectProtocol destination)
               (AnalysisTotalFiles an) (SmallFiles an) (LargeFiles an))"
      by blast
  qed
  have second: "(\<exists>r. AnalyzeTransfer a walk source destination = Inr r) =
        (detectProtocol source = ProtocolLocal \<longrightarrow>
          (\<exists>r. analyzeLocal a walk (zeroAnalysis\<lparr>SourceProtocol := ProtocolLocal\<rparr>) = Inr r))"
    by (rule AnalyzeTransfer_returns)
  have third: "fewFilesCount New = 10 \<and> manyFilesCount New = 1000
      \<and> smallFilePercent New = Finite 80 \<and> largeFilePercent New = Finite 50"
    by (simp add: New_def)
  show ?thesis by (rule conjI [OF first conjI [OF second third]])
qed

theorem C5_recommendation_order_witness:
  "(\<exists>an. AnalyzeTransfer New [] ''user@a:/src'' ''user@b:/dst'' = Inr an
       \<and> Recommendation an = StrategyProxy)
   \<and> AnalyzeTransfer tar_analyzer (walk_of [5, 5, 5, 5, 5]) ''/data'' ''/dst''
       = Inr \<lparr>AnalysisTotalSize = 25, AnalysisTotalFiles = 5, AverageFileSize = 5,
              SmallFiles = 5, MediumFiles = 0, LargeFiles = 0, SourceProtocol = ProtocolLocal,
              DestProtocol = ProtocolLocal, Recommendation = StrategyTar\<rparr>
   \<and> smallFilePercent tar_analyzer = Finite 80 \<and> largeFilePercent tar_analyzer = Finite 50
   \<and> float_recommend 2 3 (Finite 80) (Finite 50) ProtocolLocal ProtocolLocal 5 5 0 = StrategyTar
   \<and> spec_recommend 2 3 80 50 ProtocolLocal ProtocolLocal 5 5 0 = StrategyTar"
proof -
  note c5 = C5_recommendation_order [of New "[]" "''user@a:/src''" "''user@b:/dst''"]
  have "\<exists>r. AnalyzeTransfer New [] ''user@a:/src'' ''user@b:/dst'' = Inr r"
    by (rule c5 [THEN conjunct2, THEN conjunct1, THEN iffD2]) (simp add: detectProtocol_examples)
  then obtain an
    where an: "AnalyzeTransfer New [] ''user@a:/src'' ''user@b:/dst'' = Inr an" ..
  have "Recommendation an = StrategyProxy"
    using C5_recommendation_order [of New "[]" "''user@a:/src''" "''user@b:/dst''" an,
        THEN conjunct1, THEN mp, OF an, THEN conjunct1]
    by (simp add: float_recommend_def detectProtocol_examples)
  with an have p: "\<exists>an. AnalyzeTransfer New [] ''user@a:/src'' ''user@b:/dst'' = Inr an
       \<and> Recommendation an = StrategyProxy"
    by blast
  let ?r = "\<lparr>AnalysisTotalSize = 25, AnalysisTotalFiles = 5, AverageFileSize = 5,
              SmallFiles = 5, MediumFiles = 0, LargeFiles = 0, SourceProtocol = ProtocolLocal,
              DestProtocol = ProtocolLocal, Recommendation = StrategyTar\<rparr>"
  note t = C5_recommendation_order [of tar_analyzer "walk_of [5, 5, 5, 5, 5]" "''/data''" "''/dst''" ?r,
        THEN conjunct1, THEN mp, OF AnalyzeTransfer_tar_example]
  have d: "smallFilePercent tar_analyzer = Finite 80" "largeFilePercent tar_analyzer = Finite 50"
    "fewFilesCount tar_analyzer = 2" "manyFilesCount tar_analyzer = 3"
    by (simp_all add: tar_analyzer_def New_def)
  have u: "float_recommend 2 3 (Finite 80) (Finite 50) ProtocolLocal ProtocolLocal 5 5 0 = StrategyTar"
    using t [THEN conjunct1] by (simp add: detectProtocol_examples d)
  have h: "smallFilePercent tar_analyzer = Finite 80 \<and> largeFilePercent tar_analyzer = Finite 50
           \<and> int (length (walk_of [5, 5, 5, 5, 5])) < 2 ^ 49"
    by (simp add: d walk_of_def)
  have v: "spec_recommend 2 3 80 50 ProtocolLocal ProtocolLocal 5 5 0 = StrategyTar"
    using t [THEN conjunct2, THEN conjunct2, THEN conjunct2, THEN mp, OF h]
    by (simp add: detectProtocol_examples d)
  from p AnalyzeTransfer_tar_example d(1,2) u v show ?thesis by (intro conjI)
qed

section \<open>Sampling of large trees\<close>

lemma kth_from_index:
  "kth_from k c xs = map (\<lambda>i. xs ! i) (filter (\<lambda>i. Suc (c + i) mod k = 0) [0..<length xs])"
proof (induction xs arbitrary: c)
  case Nil
  then show ?case by simp
next
  case (Cons x xs)
  have upt: "[0..<length (x # xs)] = 0 # map Suc [0..<length xs]"
    by (simp add: upt_conv_Cons map_Suc_upt del: upt_Suc)
  show ?case
    unfolding upt by (simp add: Cons.IH filter_map comp_def)
qed

lemma kth_from_every_kth: "kth_from k 0 xs = every_kth k xs"
  by (simp add: kth_from_index every_kth_def)

lemma countFiles_exact:
  assumes "0 \<le> c" "c + int (length es) < 2 ^ 63"
  shows "countFiles es c = c + int (length (files_of es))"
  using assms
proof (induction es arbitrary: c)
  case Nil
  then show ?case by (simp add: files_of_def)
next
  case (Cons e es)
  have r: "i64 (c + 1) = c + 1"
    using Cons.prems by (intro i64_id) (simp add: in_i64_def)
  show ?case
  proof (cases "\<not> walkErr e \<and> \<not> isDir e")
    case True
    have "countFiles es (c + 1) = c + 1 + int (length (files_of es))"
      using Cons.prems by (intro Cons.IH) simp_all
    with True r show ?thesis by (simp add: files_of_def)
  next
    case False
    have "countFiles es c = c + int (length (files_of es))"
      using Cons.prems by (intro Cons.IH) simp_all
    with False show ?thesis by (auto simp: files_of_def)
  qed
qed

lemma mod_int_nat:
  assumes "0 \<le> c" "0 < k"
  shows "((c + 1) mod k = 0) = (Suc (nat c) mod nat k = 0)"
proof -
  have "int (Suc (nat c) mod nat k) = int (Suc (nat c)) mod int (nat k)"
    by (simp add: zmod_int)
  also have "\<dots> = (c + 1) mod k" using assms by (simp add: add.commute)
  finally show ?thesis by (metis of_nat_eq_0_iff)
qed

lemma analyzeWalk_sampled:
  assumes "\<forall>e \<in> set es. ctxErr e = None" "0 \<le> cf" "cf + int (length es) < 2 ^ 63" "1 \<le> k"
  shows "analyzeWalk a k es cf an
         = Inr (foldl (\<lambda>an sz. accumulate a k sz an) an
                  (List.map_filter infoSize (kth_from (nat k) (nat cf) (files_of es))))"
  using assms
proof (induction es arbitrary: cf an)
  case Nil
  then show ?case by (simp add: files_of_def List.map_filter_simps)
next
  case (Cons e es)
  have r: "i64 (cf + 1) = cf + 1"
    using Cons.prems by (intro i64_id) (simp add: in_i64_def)
  have ctx: "ctxErr e = None" using Cons.prems(1) by simp
  have n: "nat (cf + 1) = Suc (nat cf)" using Cons.prems(2) by simp
  have k1: "k = 1 \<Longrightarrow> Suc (nat cf) mod nat k = 0" by simp
  have md: "((cf + 1) mod k = 0) = (Suc (nat cf) mod nat k = 0)"
    using Cons.prems(2,4) by (intro mod_int_nat) simp_all
  have ih0: "\<And>an. analyzeWalk a k es cf an
       = Inr (foldl (\<lambda>an sz. accumulate a k sz an) an
                (List.map_filter infoSize (kth_from (nat k) (nat cf) (files_of es))))"
    using Cons.prems by (intro Cons.IH) simp_all
  have ih1: "\<And>an. analyzeWalk a k es (cf + 1) an
       = Inr (foldl (\<lambda>an sz. accumulate a k sz an) an
                (List.map_filter infoSize (kth_from (nat k) (Suc (nat cf)) (files_of es))))"
    using Cons.prems Cons.IH [of "cf + 1"] by (simp add: n)
  show ?case
  proof (cases "walkErr e \<or> isDir e")
    case True
    then show ?thesis by (auto simp: ctx ih0 files_of_def)
  next
    case False
    then have f: "files_of (e # es) = e # files_of es" by (simp add: files_of_def)
    show ?thesis
    proof (cases "k > 1 \<and> (cf + 1) mod k \<noteq> 0")
      case True
      with False show ?thesis
        using md by (simp add: ctx r ih1 f)
    next
      case nskip: False
      then have inc: "Suc (nat cf) mod nat k = 0"
        using md k1 Cons.prems(4) by (cases "k = 1") auto
      show ?thesis
      proof (cases "infoSize e")
        case None
        with False nskip inc show ?thesis
          by (auto simp: ctx r ih1 f List.map_filter_simps)
      next
        case (Some sz)
        with False nskip inc show ?thesis
          by (auto simp: ctx r ih1 f List.map_filter_simps)
      qed
    qed
  qed
qed

lemma accumulate_totals:
  assumes "1 \<le> k"
  shows "AnalysisTotalFiles (accumulate a k sz an) = i64 (AnalysisTotalFiles an + k)"
    and "AnalysisTotalSize (accumulate a k sz an) = i64 (AnalysisTotalSize an + k * sz)"
  using assms
  by (auto simp: accumulate_def Let_def i64_add_right mult.commute)

lemma foldl_accumulate_totals:
  assumes "1 \<le> k"
  shows "i64 (AnalysisTotalFiles (foldl (\<lambda>an sz. accumulate a k sz an) an szs))
           = i64 (AnalysisTotalFiles an + k * int (length szs))
       \<and> i64 (AnalysisTotalSize (foldl (\<lambda>an sz. accumulate a k sz an) an szs))
           = i64 (AnalysisTotalSize an + k * sum_list szs)"
proof (induction szs arbitrary: an)
  case Nil
  then show ?case by simp
next
  case (Cons sz szs)
  have f: "i64 (i64 (AnalysisTotalFiles an + k) + k * int (length szs))
        = i64 (AnalysisTotalFiles an + k * int (length (sz # szs)))"
    by (simp only: i64_add_left) (simp add: algebra_simps)
  have s: "i64 (i64 (AnalysisTotalSize an + k * sz) + k * sum_list szs)
        = i64 (AnalysisTotalSize an + k * sum_list (sz # szs))"
    by (simp only: i64_add_left) (simp add: algebra_simps)
  show ?case
    using Cons.IH [of "accumulate a k sz an"] f s
    by (simp add: accumulate_totals [OF assms])
qed

lemma i64_in_range: "in_i64 (i64 x)"
  by (simp add: i64_def in_i64_def)

lemma i64_idem: "i64 (i64 x) = i64 x"
  by (rule i64_id [OF i64_in_range])

lemma accumulate_in_range:
  "in_i64 (AnalysisTotalFiles (accumulate a k sz an))"
  "in_i64 (AnalysisTotalSize (accumulate a k sz an))"
  by (auto simp: accumulate_def Let_def i64_in_range)

lemma foldl_accumulate_in_range:
  assumes "in_i64 (AnalysisTotalFiles an)" "in_i64 (AnalysisTotalSize an)"
  shows "in_i64 (AnalysisTotalFiles (foldl (\<lambda>an sz. accumulate a k sz an) an szs))
       \<and> in_i64 (AnalysisTotalSize (foldl (\<lambda>an sz. accumulate a k sz an) an szs))"
  using assms
  by (induction szs arbitrary: an) (simp_all add: accumulate_in_range)


text \<open>
  What the sampling of \<open>analyzeLocal\<close> does on every walk that is not cancelled,
  with \<open>T\<close> files and \<open>0 < maxSampleSize = M < T\<close>: it succeeds, the sampling
  interval is the integer quotient \<open>k = T div M\<close> (at least 1), the files analysed
  are every \<open>k\<close>-th file in walk order (those whose \<open>Info\<close> succeeds), and each of
  them adds \<open>k\<close> to the total file count and \<open>k\<close> times its size to the total
  size, in the 64-bit arithmetic of the accumulators.
\<close>

lemma sampling_totals:
  assumes ctx: "\<forall>e \<in> set walk. ctxErr e = None"
    and len: "int (length walk) < 2 ^ 63"
    and M: "0 < maxSampleSize a" "maxSampleSize a < int (length (files_of walk))"
    and rng: "in_i64 (AnalysisTotalFiles an)" "in_i64 (AnalysisTotalSize an)"
  shows "\<exists>an'. analyzeLocal a walk an = Inr an' \<and>
     (let k = int (length (files_of walk)) div maxSampleSize a;
          sizes = List.map_filter infoSize (every_kth (nat k) (files_of walk))
      in 1 \<le> k
         \<and> AnalysisTotalFiles an' = i64 (AnalysisTotalFiles an + k * int (length sizes))
         \<and> AnalysisTotalSize an' = i64 (AnalysisTotalSize an + k * sum_list sizes))"
proof -
  let ?T = "int (length (files_of walk))"
  let ?M = "maxSampleSize a"
  let ?k = "?T div ?M"
  let ?sizes = "List.map_filter infoSize (every_kth (nat ?k) (files_of walk))"
  let ?an' = "foldl (\<lambda>an sz. accumulate a ?k sz an) an ?sizes"
  have cnt: "countFiles walk 0 = ?T"
    using countFiles_exact [of 0 walk] len by simp
  have "0 < ?k"
    using M by (simp add: pos_imp_zdiv_pos_iff)
  then have k1: "1 \<le> ?k" by simp
  have Tpos: "0 < ?T" using M by linarith
  have q: "quot ?T ?M = ?k"
    using M Tpos by (simp add: quot_def)
  have run: "analyzeWalk a ?k walk 0 an = Inr ?an'"
    using analyzeWalk_sampled [OF ctx, of 0 ?k a an] len k1
    by (simp add: kth_from_every_kth)
  have res: "analyzeLocal a walk an = Inr ?an'"
    using M by (simp add: analyzeLocal_def cnt q run Let_def)
  have ir: "in_i64 (AnalysisTotalFiles ?an')" "in_i64 (AnalysisTotalSize ?an')"
    using foldl_accumulate_in_range [OF rng] by blast+
  have tot: "AnalysisTotalFiles ?an' = i64 (AnalysisTotalFiles an + ?k * int (length ?sizes))"
      "AnalysisTotalSize ?an' = i64 (AnalysisTotalSize an + ?k * sum_list ?sizes)"
    using foldl_accumulate_totals [OF k1, of a an ?sizes] ir by (simp_all add: i64_id)
  show ?thesis
    by (rule exI [of _ ?an']) (simp only: Let_def res k1 tot simp_thms)
qed

lemma sampling_totals_example:
  "list_all (\<lambda>e. ctxErr e = None) (walk_of [10, 20, 30, 40, 50])
   \<and> files_of (walk_of [10, 20, 30, 40, 50]) = walk_of [10, 20, 30, 40, 50]
   \<and> maxSampleSize sample2 = 2
   \<and> List.map_filter infoSize (every_kth 2 (walk_of [10, 20, 30, 40, 50])) = [20, 40]
   \<and> (\<exists>an'. analyzeLocal sample2 (walk_of [10, 20, 30, 40, 50]) zeroAnalysis = Inr an'
         \<and> AnalysisTotalFiles an' = 4 \<and> AnalysisTotalSize an' = 120)"
proof -
  let ?w = "walk_of [10, 20, 30, 40, 50]"
  have fo: "files_of ?w = ?w"
    by (simp add: files_of_def walk_of_def plainFile_def)
  have h1: "\<forall>e \<in> set ?w. ctxErr e = None"
    by (simp add: walk_of_def plainFile_def)
  have h2: "int (length ?w) < 2 ^ 63" by (simp add: walk_of_def)
  have m: "maxSampleSize sample2 = 2" by (simp add: sample2_def)
  have h3: "0 < maxSampleSize sample2" "maxSampleSize sample2 < int (length (files_of ?w))"
    by (simp_all add: m fo) (simp add: walk_of_def)
  have h4: "in_i64 (AnalysisTotalFiles zeroAnalysis)" "in_i64 (AnalysisTotalSize zeroAnalysis)"
    by (simp_all add: zeroAnalysis_def in_i64_def)
  have ev: "List.map_filter infoSize (every_kth 2 ?w) = [20, 40]"
    by (simp add: every_kth_def walk_of_def plainFile_def List.map_filter_simps upt_conv_Cons)
  have k: "int (length (files_of ?w)) div maxSampleSize sample2 = 2"
    by (simp add: fo m) (simp add: walk_of_def)
  from sampling_totals [OF h1 h2 h3 h4]
  obtain an' where r: "analyzeLocal sample2 ?w zeroAnalysis = Inr an'"
    and body: "(let k = int (length (files_of ?w)) div maxSampleSize sample2;
          sizes = List.map_filter infoSize (every_kth (nat k) (files_of ?w))
      in 1 \<le> k
         \<and> AnalysisTotalFiles an' = i64 (AnalysisTotalFiles zeroAnalysis + k * int (length sizes))
         \<and> AnalysisTotalSize an' = i64 (AnalysisTotalSize zeroAnalysis + k * sum_list sizes))"
    by blast
  have n2: "nat 2 = 2" by simp
  have k': "int (length ?w) div maxSampleSize sample2 = 2"
    using k by (simp only: fo)
  from body have "AnalysisTotalFiles an' = 4 \<and> AnalysisTotalSize an' = 120"
    by (simp only: Let_def fo k' n2 ev) (simp add: zeroAnalysis_def i64_def)
  with r have "\<exists>an'. analyzeLocal sample2 ?w zeroAnalysis = Inr an'
         \<and> AnalysisTotalFiles an' = 4 \<and> AnalysisTotalSize an' = 120"
    by blast
  with h1 fo m ev show ?thesis by (simp add: list_all_iff)
qed


text \<open>
  C6. With \<open>maxSampleSize = 2\<close>, described in the source as the maximum number of
  files to sample. On three files the count exceeds the maximum, but the interval is
  the quotient rounded down, 1: all three files are analysed and nothing is scaled,
  where the interval rounded up, 2, takes one file and reports 2. On four files of one
  byte the interval is 2, two files are sampled and the totals are scaled to 4 files
  and 4 bytes, but the small-file bucket is 2, not the scaled 4.
\<close>

theorem C6_sampling_small_trees:
  "maxSampleSize sample2 < int (length (walk_of [1, 1, 1, 1]))
   \<and> map_sum (\<lambda>e. e) counts_of (analyzeLocal sample2 (walk_of [1, 1, 1, 1]) zeroAnalysis)
       = Inr (4, 4, 2, 0, 0)
   \<and> spec_sampled_counts sample2 [1, 1, 1, 1] = (4, 4, 4, 0, 0)
   \<and> maxSampleSize sample2 < int (length (walk_of [1, 1, 1]))
   \<and> map_sum (\<lambda>e. e) counts_of (analyzeLocal sample2 (walk_of [1, 1, 1]) zeroAnalysis)
       = Inr (3, 3, 3, 0, 0)
   \<and> spec_sampled_counts sample2 [1, 1, 1] = (2, 2, 2, 0, 0)"
  by (simp add: analyzer_eval spec_sampled_counts_def every_kth_def upt_conv_Cons)

section \<open>Source worker: buffered batches\<close>

lemma createTarArchive_ok:
  assumes "createTarArchive env bm1 b p = (None, b2, bm2)"
  shows "tarError env = None \<and> stat env p = Inr (Size b2)
       \<and> b2 = b\<lparr>Size := Size b2\<rparr>
       \<and> (Size b2 = Size b \<longrightarrow> bm2 = bm1)
       \<and> (in_i64 (Size b2 - Size b) \<and> in_i64 (Size b - Size b2) \<longrightarrow>
            (Size b2 < Size b \<longrightarrow> bm2 = ReleaseSpace bm1 (Size b - Size b2))
          \<and> (Size b2 > Size b \<longrightarrow> bm2 = snd (ReserveSpace bm1 (Size b2 - Size b))))"
proof -
  from assms have te: "tarError env = None"
    by (auto simp: createTarArchive_def split: option.splits)
  from assms te obtain n where st: "stat env p = Inr n"
    by (auto simp: createTarArchive_def split: sum.splits)
  show ?thesis
  proof (cases "n = Size b")
    case True
    with assms te st show ?thesis
      by (auto simp: createTarArchive_def)
  next
    case False
    with assms te st have b2: "b2 = b\<lparr>Size := n\<rparr>"
      and bm2: "bm2 = (if i64 (n - Size b) > 0 then snd (ReserveSpace bm1 (i64 (n - Size b)))
                       else ReleaseSpace bm1 (i64 (- i64 (n - Size b))))"
      by (auto simp: createTarArchive_def Let_def)
    have sz: "Size b2 = n" using b2 by simp
    have r: "in_i64 (n - Size b) \<and> in_i64 (Size b - n) \<longrightarrow>
            (n < Size b \<longrightarrow> bm2 = ReleaseSpace bm1 (Size b - n))
          \<and> (n > Size b \<longrightarrow> bm2 = snd (ReserveSpace bm1 (n - Size b)))"
    proof (intro impI conjI)
      assume ir: "in_i64 (n - Size b) \<and> in_i64 (Size b - n)"
      then have d: "i64 (n - Size b) = n - Size b" and d': "i64 (Size b - n) = Size b - n"
        by (simp_all add: i64_id)
      { assume "n < Size b"
        then show "bm2 = ReleaseSpace bm1 (Size b - n)"
          using bm2 d d' by simp }
      { assume "n > Size b"
        then show "bm2 = snd (ReserveSpace bm1 (n - Size b))"
          using bm2 d by simp }
    qed
    from te st b2 sz r False show ?thesis by simp
  qed
qed

lemma processBatch_ok:
  assumes "processBatch env mid bm b = (Returned None, b', bm')"
  shows "\<exists>bm1 b2. reserveLoop bm (Size b) (waitEvents env) = (Reserved, bm1)
          \<and> createTarArchive env bm1 (SetStatus b ''downloading'')
                (getBatchPath env mid (ID b)) = (None, b2, bm')
          \<and> b' = SetStatus (SetLocalPath b2 (getBatchPath env mid (ID b))) ''buffered''"
  using assms
  by (auto simp: processBatch_def Let_def SetStatus_def
      split: option.splits prod.splits wait_result.splits sum.splits)

lemma processBatch_status:
  assumes "processBatch env mid bm b = (oc, b', bm')"
  shows "(Status b' = ''buffered'') = (oc = Returned None)"
    and "oc \<noteq> Returned None \<longrightarrow> Status b' = ''downloading''"
proof -
  have ct: "\<And>bm1 p e b2 bm2. createTarArchive env bm1 (SetStatus b ''downloading'') p = (e, b2, bm2)
      \<Longrightarrow> Status b2 = ''downloading''"
    by (auto simp: createTarArchive_def Let_def SetStatus_def split: option.splits sum.splits if_splits)
  from assms ct show "(Status b' = ''buffered'') = (oc = Returned None)"
    by (auto simp: processBatch_def Let_def SetStatus_def SetLocalPath_def
        split: option.splits prod.splits wait_result.splits sum.splits)
  from assms ct show "oc \<noteq> Returned None \<longrightarrow> Status b' = ''downloading''"
    by (auto simp: processBatch_def Let_def SetStatus_def SetLocalPath_def
        split: option.splits prod.splits wait_result.splits sum.splits)
qed

lemmas worker_eval =
  sourceWorkerStep_def processBatch_def createTarArchive_def ReserveSpace_def
  ReleaseSpace_def SetStatus_def SetLocalPath_def SetError_def small_buffer_def batch60_def
  archive_env_def Let_def i64_def


text \<open>
  What every run of the source worker does guarantee. A batch is left in status
  \<open>buffered\<close> exactly when \<open>processBatch\<close> returns nil. Then the tar command has
  exited without error, \<open>local_path\<close> is the batch's buffer path, and the size field is
  the byte length that the stat of that path reported after the command exited. With
  \<open>bm1\<close> the buffer manager as the worker's reservation of the declared size left it:
  when the length equals the declared size the counter is untouched; when it is
  smaller the difference has been released; when it is larger one \<open>ReserveSpace\<close> of
  the difference has been made.
\<close>

lemma buffered_size_and_path:
  assumes "sourceWorkerStep env mid bm b = (oc, b', bm')"
  shows "(Status b' = ''buffered'') = (oc = Returned None)
    \<and> (Status b' = ''buffered'' \<longrightarrow>
         LocalPath b' = getBatchPath env mid (ID b)
       \<and> tarError env = None
       \<and> stat env (LocalPath b') = Inr (Size b')
       \<and> (\<exists>bm1. reserveLoop bm (Size b) (waitEvents env) = (Reserved, bm1)
            \<and> (Size b' = Size b \<longrightarrow> bm' = bm1)
            \<and> (in_i64 (Size b' - Size b) \<and> in_i64 (Size b - Size b') \<longrightarrow>
                 (Size b' < Size b \<longrightarrow> bm' = ReleaseSpace bm1 (Size b - Size b'))
               \<and> (Size b' > Size b \<longrightarrow> bm' = snd (ReserveSpace bm1 (Size b' - Size b))))))"
proof -
  obtain oc0 b0 bm0 where pb: "processBatch env mid bm b = (oc0, b0, bm0)"
    by (cases "processBatch env mid bm b") auto
  note st = processBatch_status [OF pb]
  have sw: "oc = oc0 \<and> bm' = bm0 \<and> (oc0 = Returned None \<longrightarrow> b' = b0)
      \<and> (oc0 \<noteq> Returned None \<longrightarrow> Status b' \<noteq> ''buffered'')"
  proof (cases oc0)
    case StillWaiting
    with assms pb st show ?thesis by (auto simp: sourceWorkerStep_def)
  next
    case (Returned e)
    with assms pb st show ?thesis
      by (cases e) (auto simp: sourceWorkerStep_def SetError_def)
  qed
  have first: "(Status b' = ''buffered'') = (oc = Returned None)"
    using sw st(1) by auto
  have second: "Status b' = ''buffered'' \<longrightarrow>
         LocalPath b' = getBatchPath env mid (ID b)
       \<and> tarError env = None
       \<and> stat env (LocalPath b') = Inr (Size b')
       \<and> (\<exists>bm1. reserveLoop bm (Size b) (waitEvents env) = (Reserved, bm1)
            \<and> (Size b' = Size b \<longrightarrow> bm' = bm1)
            \<and> (in_i64 (Size b' - Size b) \<and> in_i64 (Size b - Size b') \<longrightarrow>
                 (Size b' < Size b \<longrightarrow> bm' = ReleaseSpace bm1 (Size b - Size b'))
               \<and> (Size b' > Size b \<longrightarrow> bm' = snd (ReserveSpace bm1 (Size b' - Size b)))))"
  proof
    assume "Status b' = ''buffered''"
    with first sw have ok: "processBatch env mid bm b = (Returned None, b', bm')"
      using pb by auto
    from processBatch_ok [OF ok] obtain bm1 b2 where
      rl: "reserveLoop bm (Size b) (waitEvents env) = (Reserved, bm1)"
      and ct: "createTarArchive env bm1 (SetStatus b ''downloading'')
                (getBatchPath env mid (ID b)) = (None, b2, bm')"
      and b': "b' = SetStatus (SetLocalPath b2 (getBatchPath env mid (ID b))) ''buffered''"
      by blast
    note c = createTarArchive_ok [OF ct]
    have sz: "Size b' = Size b2" and lp: "LocalPath b' = getBatchPath env mid (ID b)"
      using b' by (simp_all add: SetStatus_def SetLocalPath_def)
    have sb: "Size (SetStatus b ''downloading'') = Size b" by (simp add: SetStatus_def)
    from c have c1: "tarError env = None"
      and c2: "stat env (getBatchPath env mid (ID b)) = Inr (Size b2)"
      and c3: "Size b2 = Size b \<longrightarrow> bm' = bm1"
      and c4: "in_i64 (Size b2 - Size b) \<and> in_i64 (Size b - Size b2) \<longrightarrow>
            (Size b2 < Size b \<longrightarrow> bm' = ReleaseSpace bm1 (Size b - Size b2))
          \<and> (Size b2 > Size b \<longrightarrow> bm' = snd (ReserveSpace bm1 (Size b2 - Size b)))"
      unfolding sb by blast+
    have ex: "\<exists>bm1. reserveLoop bm (Size b) (waitEvents env) = (Reserved, bm1)
            \<and> (Size b' = Size b \<longrightarrow> bm' = bm1)
            \<and> (in_i64 (Size b' - Size b) \<and> in_i64 (Size b - Size b') \<longrightarrow>
                 (Size b' < Size b \<longrightarrow> bm' = ReleaseSpace bm1 (Size b - Size b'))
               \<and> (Size b' > Size b \<longrightarrow> bm' = snd (ReserveSpace bm1 (Size b' - Size b))))"
      unfolding sz using rl c3 c4 by blast
    from lp c1 c2 ex show "LocalPath b' = getBatchPath env mid (ID b)
       \<and> tarError env = None
       \<and> stat env (LocalPath b') = Inr (Size b')
       \<and> (\<exists>bm1. reserveLoop bm (Size b) (waitEvents env) = (Reserved, bm1)
            \<and> (Size b' = Size b \<longrightarrow> bm' = bm1)
            \<and> (in_i64 (Size b' - Size b) \<and> in_i64 (Size b - Size b') \<longrightarrow>
                 (Size b' < Size b \<longrightarrow> bm' = ReleaseSpace bm1 (Size b - Size b'))
               \<and> (Size b' > Size b \<longrightarrow> bm' = snd (ReserveSpace bm1 (Size b' - Size b)))))"
      by (simp only: lp sz simp_thms)
  qed
  from first second show ?thesis by (rule conjI)
qed


lemma buffered_size_and_path_example:
  "sourceWorkerStep (archive_env 45) ''m'' small_buffer batch60
     = (Returned None,
        batch60\<lparr>Size := 45, LocalPath := ''/tmp/difpipe-buffer/m/batch_00000.tar.gz'',
                 Status := ''buffered''\<rparr>,
        small_buffer\<lparr>currentSize := 45\<rparr>)
   \<and> stat (archive_env 45) ''/tmp/difpipe-buffer/m/batch_00000.tar.gz'' = Inr 45
   \<and> reserveLoop small_buffer 60 [] = (Reserved, small_buffer\<lparr>currentSize := 60\<rparr>)
   \<and> ReleaseSpace (small_buffer\<lparr>currentSize := 60\<rparr>) 15 = small_buffer\<lparr>currentSize := 45\<rparr>"
proof -
  let ?b' = "batch60\<lparr>Size := 45, LocalPath := ''/tmp/difpipe-buffer/m/batch_00000.tar.gz'',
                 Status := ''buffered''\<rparr>"
  have run: "sourceWorkerStep (archive_env 45) ''m'' small_buffer batch60
     = (Returned None, ?b', small_buffer\<lparr>currentSize := 45\<rparr>)"
    by (simp add: worker_eval)
  have rl: "reserveLoop small_buffer 60 [] = (Reserved, small_buffer\<lparr>currentSize := 60\<rparr>)"
    by (simp add: ReserveSpace_def small_buffer_def Let_def i64_def)
  note c7 = buffered_size_and_path [OF run, THEN conjunct2, THEN mp]
  have bf: "Status ?b' = ''buffered''" by simp
  from c7 [OF bf] have st: "stat (archive_env 45) (LocalPath ?b') = Inr (Size ?b')"
    by blast
  have rs: "ReleaseSpace (small_buffer\<lparr>currentSize := 60\<rparr>) 15 = small_buffer\<lparr>currentSize := 45\<rparr>"
    by (simp add: ReleaseSpace_def small_buffer_def i64_def)
  from run st rl rs show ?thesis by simp
qed


text \<open>
  C7. The batch is declared at 60 bytes and reserved; the archive has 150 bytes. The
  worker asks \<open>ReserveSpace\<close> for the missing 90 bytes, which is refused (60 + 90
  exceeds the maximum 100), and does not look at the answer, although
  \<open>processBatch\<close> waits on the same answer for the declared size. The batch becomes
  buffered with size 150 and the right path while the counter holds 60: the
  reservation has not followed the size. The destination worker later releases the
  150 bytes of the batch, which leaves the counter at -90.
\<close>

theorem C7_reconcile_refused:
  "sourceWorkerStep (archive_env 150) ''m'' small_buffer batch60
     = (Returned None,
        batch60\<lparr>Size := 150, LocalPath := ''/tmp/difpipe-buffer/m/batch_00000.tar.gz'',
                 Status := ''buffered''\<rparr>,
        small_buffer\<lparr>currentSize := 60\<rparr>)
   \<and> \<not> fst (ReserveSpace (small_buffer\<lparr>currentSize := 60\<rparr>) (150 - 60))
   \<and> snd (snd (destWorkerStep DefaultConfig None None (small_buffer\<lparr>currentSize := 60\<rparr>)
        (batch60\<lparr>Size := 150, LocalPath := ''/tmp/difpipe-buffer/m/batch_00000.tar.gz'',
                 Status := ''buffered''\<rparr>)))
       = small_buffer\<lparr>currentSize := - 90\<rparr>"
  by (simp add: worker_eval destWorkerStep_def DefaultConfig_def DeleteBatch_def)

section \<open>Exactly-once dispatch\<close>

lemma createTarArchive_ID:
  "createTarArchive env bm b p = (e, b2, bm2) \<Longrightarrow> ID b2 = ID b"
  by (auto simp: createTarArchive_def Let_def split: option.splits sum.splits if_splits)

lemma processBatch_ID:
  "processBatch env mid bm b = (oc, b', bm') \<Longrightarrow> ID b' = ID b"
  by (auto simp: processBatch_def Let_def SetStatus_def SetLocalPath_def
      split: option.splits prod.splits wait_result.splits sum.splits
      dest!: createTarArchive_ID)

lemma sourceWorkerStep_ID:
  "sourceWorkerStep env mid bm b = (oc, b', bm') \<Longrightarrow> ID b' = ID b"
  by (auto simp: sourceWorkerStep_def SetError_def
      split: prod.splits outcome.splits option.splits dest!: processBatch_ID)

lemma destWorkerStep_ID:
  "destWorkerStep config ee rf bm b = (r, b', bm') \<Longrightarrow> ID b' = ID b"
  by (auto simp: destWorkerStep_def Let_def SetStatus_def SetError_def
      split: option.splits if_splits)

lemma map_ID_update:
  assumes "ID b' = ID (xs ! i)"
  shows "map ID (xs[i := b']) = map ID xs"
proof (cases "i < length xs")
  case True
  with assms show ?thesis by (simp add: map_update list_update_same_conv)
next
  case False
  then have "length xs \<le> i" by simp
  then show ?thesis by (simp add: list_update_beyond)
qed

lemma idOf_cong:
  assumes "map ID (batches s') = map ID (batches s)" "i < length (batches s)"
  shows "idOf s' i = idOf s i"
proof -
  have l: "length (batches s') = length (batches s)"
    using assms(1) by (metis length_map)
  have "map ID (batches s') ! i = map ID (batches s) ! i" using assms(1) by simp
  with assms(2) l show ?thesis by (simp add: idOf_def)
qed

lemma idOf_image_cong:
  assumes "map ID (batches s') = map ID (batches s)" "\<forall>i \<in> set xs. i < length (batches s)"
  shows "map (idOf s') xs = map (idOf s) xs"
  using assms by (auto intro: idOf_cong)

text \<open>Rules to take the invariant apart and to put it together.\<close>

lemma dispatch_invD:
  assumes "dispatch_inv bs s"
  shows "map ID (batches s) = map ID bs"
    and "length (batches s) = length bs"
    and "fed s \<le> length bs"
    and "distinct (sourceQueue s @ sourceBusy s)"
    and "\<forall>i \<in> set (sourceQueue s @ sourceBusy s). i < fed s \<and> i \<notin> reached s"
    and "\<forall>i \<in> reached s. i < fed s"
    and "\<forall>i \<in> set (destQueue s @ destBusy s @ received s). i < length bs"
    and "set (destQueue s @ destBusy s) \<subseteq> set (received s)"
    and "enqueuedToDest s = idOf s ` set (received s)"
    and "distinct (map (idOf s) (received s))"
    and "\<forall>i \<in> reached s. Status (batches s ! i) = ''buffered'' \<or> i \<in> set (received s)"
proof -
  show m: "map ID (batches s) = map ID bs"
    using assms unfolding dispatch_inv_def by (elim conjE)
  show "length (batches s) = length bs" using m by (metis length_map)
  show "fed s \<le> length bs"
    using assms unfolding dispatch_inv_def by (elim conjE)
  show "distinct (sourceQueue s @ sourceBusy s)"
    using assms unfolding dispatch_inv_def by (elim conjE)
  show "\<forall>i \<in> set (sourceQueue s @ sourceBusy s). i < fed s \<and> i \<notin> reached s"
    using assms unfolding dispatch_inv_def by (elim conjE)
  show "\<forall>i \<in> reached s. i < fed s"
    using assms unfolding dispatch_inv_def by (elim conjE)
  show "\<forall>i \<in> set (destQueue s @ destBusy s @ received s). i < length bs"
    using assms unfolding dispatch_inv_def by (elim conjE)
  show "set (destQueue s @ destBusy s) \<subseteq> set (received s)"
    using assms unfolding dispatch_inv_def by (elim conjE)
  show "enqueuedToDest s = idOf s ` set (received s)"
    using assms unfolding dispatch_inv_def by (elim conjE)
  show "distinct (map (idOf s) (received s))"
    using assms unfolding dispatch_inv_def by (elim conjE)
  show "\<forall>i \<in> reached s. Status (batches s ! i) = ''buffered'' \<or> i \<in> set (received s)"
    using assms unfolding dispatch_inv_def by (elim conjE)
qed

lemma dispatch_invI:
  assumes "map ID (batches s) = map ID bs"
    and "fed s \<le> length bs"
    and "distinct (sourceQueue s @ sourceBusy s)"
    and "\<forall>i \<in> set (sourceQueue s @ sourceBusy s). i < fed s \<and> i \<notin> reached s"
    and "\<forall>i \<in> reached s. i < fed s"
    and "\<forall>i \<in> set (destQueue s @ destBusy s @ received s). i < length bs"
    and "set (destQueue s @ destBusy s) \<subseteq> set (received s)"
    and "enqueuedToDest s = idOf s ` set (received s)"
    and "distinct (map (idOf s) (received s))"
    and "\<forall>i \<in> reached s. Status (batches s ! i) = ''buffered'' \<or> i \<in> set (received s)"
  shows "dispatch_inv bs s"
  unfolding dispatch_inv_def using assms by (intro conjI)

lemma dispatch_inv_initial: "dispatch_inv bs (initial bs)"
  by (simp add: dispatch_inv_def initial_def)

lemma inv_feed:
  assumes inv: "dispatch_inv bs s" and en: "fed s < length (batches s)"
  shows "dispatch_inv bs (feed s)"
proof -
  note d = dispatch_invD [OF inv]
  have nf: "fed s \<notin> set (sourceQueue s @ sourceBusy s)" using d(5) by auto
  have nr: "fed s \<notin> reached s" using d(6) by auto
  have io: "idOf (feed s) = idOf s" by (simp add: idOf_def feed_def fun_eq_iff)
  show ?thesis
  proof (rule dispatch_invI)
    show "map ID (batches (feed s)) = map ID bs" using d(1) by (simp add: feed_def)
    show "fed (feed s) \<le> length bs" using en d(2) by (simp add: feed_def)
    show "distinct (sourceQueue (feed s) @ sourceBusy (feed s))"
      using d(4) nf by (simp add: feed_def)
    show "\<forall>i \<in> set (sourceQueue (feed s) @ sourceBusy (feed s)). i < fed (feed s) \<and> i \<notin> reached (feed s)"
      using d(5) nr by (auto simp: feed_def less_Suc_eq)
    show "\<forall>i \<in> reached (feed s). i < fed (feed s)"
      using d(6) by (auto simp: feed_def less_Suc_eq)
    show "\<forall>i \<in> set (destQueue (feed s) @ destBusy (feed s) @ received (feed s)). i < length bs"
      using d(7) by (simp add: feed_def)
    show "set (destQueue (feed s) @ destBusy (feed s)) \<subseteq> set (received (feed s))"
      using d(8) by (simp add: feed_def)
    show "enqueuedToDest (feed s) = idOf (feed s) ` set (received (feed s))"
      using d(9) by (simp add: io) (simp add: feed_def)
    show "distinct (map (idOf (feed s)) (received (feed s)))"
      using d(10) by (simp add: io) (simp add: feed_def)
    show "\<forall>i \<in> reached (feed s). Status (batches (feed s) ! i) = ''buffered'' \<or> i \<in> set (received (feed s))"
      using d(11) by (simp add: feed_def)
  qed
qed

lemma inv_sourceTake:
  assumes inv: "dispatch_inv bs s" and en: "sourceQueue s \<noteq> []"
  shows "dispatch_inv bs (sourceTake s)"
proof -
  note d = dispatch_invD [OF inv]
  from en obtain i q where q: "sourceQueue s = i # q" by (cases "sourceQueue s") auto
  let ?s' = "s\<lparr>sourceQueue := q, sourceBusy := i # sourceBusy s,
                batches := (batches s)[i := SetStatus (batches s ! i) ''downloading'']\<rparr>"
  have st: "sourceTake s = ?s'" by (simp add: sourceTake_def q)
  have ir: "i \<notin> reached s" using d(5) q by auto
  have m: "map ID (batches ?s') = map ID (batches s)"
    by (simp add: map_ID_update SetStatus_def)
  have rl: "\<forall>j \<in> set (received s). j < length (batches s)" using d(7) d(2) by auto
  have io: "map (idOf ?s') (received s) = map (idOf s) (received s)"
    by (rule idOf_image_cong [OF m rl])
  have im: "idOf ?s' ` set (received s) = idOf s ` set (received s)"
    using io by (metis set_map)
  show ?thesis
    unfolding st
  proof (rule dispatch_invI)
    show "map ID (batches ?s') = map ID bs" using m d(1) by simp
    show "fed ?s' \<le> length bs" using d(3) by simp
    show "distinct (sourceQueue ?s' @ sourceBusy ?s')" using d(4) q by auto
    show "\<forall>j \<in> set (sourceQueue ?s' @ sourceBusy ?s'). j < fed ?s' \<and> j \<notin> reached ?s'"
      using d(5) q by auto
    show "\<forall>j \<in> reached ?s'. j < fed ?s'" using d(6) by simp
    show "\<forall>j \<in> set (destQueue ?s' @ destBusy ?s' @ received ?s'). j < length bs"
      using d(7) by simp
    show "set (destQueue ?s' @ destBusy ?s') \<subseteq> set (received ?s')" using d(8) by simp
    show "enqueuedToDest ?s' = idOf ?s' ` set (received ?s')"
      using d(9) im by simp
    show "distinct (map (idOf ?s') (received ?s'))"
    proof -
      have rs: "received ?s' = received s" by simp
      show ?thesis unfolding rs io by (rule d(10))
    qed
    show "\<forall>j \<in> reached ?s'. Status (batches ?s' ! j) = ''buffered'' \<or> j \<in> set (received ?s')"
    proof
      fix j assume j: "j \<in> reached ?s'"
      then have "j \<noteq> i" using ir by auto
      then have "batches ?s' ! j = batches s ! j" by simp
      with d(11) j show "Status (batches ?s' ! j) = ''buffered'' \<or> j \<in> set (received ?s')"
        by simp
    qed
  qed
qed

lemma inv_sourceFinish:
  assumes inv: "dispatch_inv bs s" and en: "i \<in> set (sourceBusy s)"
    and w: "sourceWorkerStep env mid bm (batches s ! i) = (Returned r, b', bm')"
  shows "dispatch_inv bs (sourceFinish i b' s)"
proof -
  note d = dispatch_invD [OF inv]
  let ?s' = "sourceFinish i b' s"
  have id: "ID b' = ID (batches s ! i)" by (rule sourceWorkerStep_ID [OF w])
  have ifed: "i < fed s" and ir: "i \<notin> reached s" using d(5) en by auto
  have ds: "distinct (sourceQueue s)" "distinct (sourceBusy s)"
      "set (sourceQueue s) \<inter> set (sourceBusy s) = {}"
    using d(4) by auto
  have m: "map ID (batches ?s') = map ID (batches s)"
    using id by (simp add: sourceFinish_def map_ID_update)
  have rl: "\<forall>j \<in> set (received s). j < length (batches s)" using d(7) d(2) by auto
  have io: "map (idOf ?s') (received s) = map (idOf s) (received s)"
    by (rule idOf_image_cong [OF m rl])
  have im: "idOf ?s' ` set (received s) = idOf s ` set (received s)"
    using io by (metis set_map)
  have ilen: "i < length (batches s)" using ifed d(3) d(2) by simp
  show ?thesis
  proof (rule dispatch_invI)
    show "map ID (batches ?s') = map ID bs" using m d(1) by simp
    show "fed ?s' \<le> length bs" using d(3) by (simp add: sourceFinish_def)
    show "distinct (sourceQueue ?s' @ sourceBusy ?s')"
      using ds by (auto simp: sourceFinish_def dest: notin_set_remove1)
    show "\<forall>j \<in> set (sourceQueue ?s' @ sourceBusy ?s'). j < fed ?s' \<and> j \<notin> reached ?s'"
    proof
      fix j assume j: "j \<in> set (sourceQueue ?s' @ sourceBusy ?s')"
      then have j0: "j \<in> set (sourceQueue s @ sourceBusy s)"
        by (auto simp: sourceFinish_def dest: notin_set_remove1)
      have "j \<noteq> i"
      proof
        assume "j = i"
        with j have "i \<in> set (sourceQueue s) \<or> i \<in> set (remove1 i (sourceBusy s))"
          by (simp add: sourceFinish_def)
        with ds en show False by auto
      qed
      with d(5) j0 show "j < fed ?s' \<and> j \<notin> reached ?s'"
        by (auto simp: sourceFinish_def)
    qed
    show "\<forall>j \<in> reached ?s'. j < fed ?s'"
      using d(6) ifed by (auto simp: sourceFinish_def split: if_splits)
    show "\<forall>j \<in> set (destQueue ?s' @ destBusy ?s' @ received ?s'). j < length bs"
      using d(7) by (simp add: sourceFinish_def)
    show "set (destQueue ?s' @ destBusy ?s') \<subseteq> set (received ?s')"
      using d(8) by (simp add: sourceFinish_def)
    show "enqueuedToDest ?s' = idOf ?s' ` set (received ?s')"
    proof -
      have "received ?s' = received s" "enqueuedToDest ?s' = enqueuedToDest s"
        by (simp_all add: sourceFinish_def)
      with d(9) im show ?thesis by simp
    qed
    show "distinct (map (idOf ?s') (received ?s'))"
    proof -
      have rs: "received ?s' = received s" by (simp add: sourceFinish_def)
      show ?thesis unfolding rs io by (rule d(10))
    qed
    show "\<forall>j \<in> reached ?s'. Status (batches ?s' ! j) = ''buffered'' \<or> j \<in> set (received ?s')"
    proof
      fix j assume j: "j \<in> reached ?s'"
      show "Status (batches ?s' ! j) = ''buffered'' \<or> j \<in> set (received ?s')"
      proof (cases "j = i")
        case True
        with j ir have "Status b' = ''buffered''"
          by (auto simp: sourceFinish_def split: if_splits)
        with True ilen show ?thesis by (simp add: sourceFinish_def)
      next
        case False
        with j have "j \<in> reached s" by (auto simp: sourceFinish_def split: if_splits)
        with d(11) False show ?thesis by (simp add: sourceFinish_def)
      qed
    qed
  qed
qed

lemma in_remove1D: "j \<in> set (remove1 i xs) \<Longrightarrow> j \<in> set xs"
  using set_remove1_subset [of i xs] by auto

lemma inv_pollBatch:
  assumes inv: "dispatch_inv bs s" and en: "i < length (batches s)"
  shows "dispatch_inv bs (pollBatch i s)"
proof (cases "Status (batches s ! i) = ''buffered'' \<and> ID (batches s ! i) \<notin> enqueuedToDest s")
  case False
  then have "pollBatch i s = s" by (auto simp: pollBatch_def Let_def)
  with inv show ?thesis by simp
next
  case True
  note d = dispatch_invD [OF inv]
  let ?s' = "s\<lparr>destQueue := destQueue s @ [i],
               enqueuedToDest := insert (ID (batches s ! i)) (enqueuedToDest s),
               received := received s @ [i]\<rparr>"
  have pb: "pollBatch i s = ?s'" using True by (simp add: pollBatch_def Let_def)
  have io: "idOf ?s' = idOf s" by (simp add: idOf_def fun_eq_iff)
  have new: "idOf s i \<notin> idOf s ` set (received s)"
    using True d(9) by (simp add: idOf_def)
  show ?thesis
    unfolding pb
  proof (rule dispatch_invI)
    show "map ID (batches ?s') = map ID bs" using d(1) by simp
    show "fed ?s' \<le> length bs" using d(3) by simp
    show "distinct (sourceQueue ?s' @ sourceBusy ?s')" using d(4) by simp
    show "\<forall>j \<in> set (sourceQueue ?s' @ sourceBusy ?s'). j < fed ?s' \<and> j \<notin> reached ?s'"
      using d(5) by simp
    show "\<forall>j \<in> reached ?s'. j < fed ?s'" using d(6) by simp
    show "\<forall>j \<in> set (destQueue ?s' @ destBusy ?s' @ received ?s'). j < length bs"
      using d(7) en d(2) by auto
    show "set (destQueue ?s' @ destBusy ?s') \<subseteq> set (received ?s')" using d(8) by auto
    show "enqueuedToDest ?s' = idOf ?s' ` set (received ?s')"
      unfolding io using d(9) by (simp add: idOf_def)
    show "distinct (map (idOf ?s') (received ?s'))"
      unfolding io using d(10) new by simp
    show "\<forall>j \<in> reached ?s'. Status (batches ?s' ! j) = ''buffered'' \<or> j \<in> set (received ?s')"
      using d(11) by auto
  qed
qed

lemma inv_pollerReturn:
  assumes inv: "dispatch_inv bs s"
  shows "dispatch_inv bs (s\<lparr>pollerDone := True\<rparr>)"
proof -
  have "idOf (s\<lparr>pollerDone := True\<rparr>) = idOf s" by (simp add: idOf_def fun_eq_iff)
  with inv show ?thesis by (simp add: dispatch_inv_def)
qed

lemma inv_destTake:
  assumes inv: "dispatch_inv bs s" and en: "destQueue s \<noteq> []"
  shows "dispatch_inv bs (destTake s)"
proof -
  note d = dispatch_invD [OF inv]
  from en obtain i q where q: "destQueue s = i # q" by (cases "destQueue s") auto
  let ?s' = "s\<lparr>destQueue := q, destBusy := i # destBusy s,
                batches := (batches s)[i := SetStatus (batches s ! i) ''uploading'']\<rparr>"
  have st: "destTake s = ?s'" by (simp add: destTake_def q)
  have irec: "i \<in> set (received s)" using d(8) q by auto
  have m: "map ID (batches ?s') = map ID (batches s)"
    by (simp add: map_ID_update SetStatus_def)
  have rl: "\<forall>j \<in> set (received s). j < length (batches s)" using d(7) d(2) by auto
  have io: "map (idOf ?s') (received s) = map (idOf s) (received s)"
    by (rule idOf_image_cong [OF m rl])
  have im: "idOf ?s' ` set (received s) = idOf s ` set (received s)"
    using io by (metis set_map)
  have rs: "received ?s' = received s" by simp
  show ?thesis
    unfolding st
  proof (rule dispatch_invI)
    show "map ID (batches ?s') = map ID bs" using m d(1) by simp
    show "fed ?s' \<le> length bs" using d(3) by simp
    show "distinct (sourceQueue ?s' @ sourceBusy ?s')" using d(4) by simp
    show "\<forall>j \<in> set (sourceQueue ?s' @ sourceBusy ?s'). j < fed ?s' \<and> j \<notin> reached ?s'"
      using d(5) by simp
    show "\<forall>j \<in> reached ?s'. j < fed ?s'" using d(6) by simp
    show "\<forall>j \<in> set (destQueue ?s' @ destBusy ?s' @ received ?s'). j < length bs"
      using d(7) q by auto
    show "set (destQueue ?s' @ destBusy ?s') \<subseteq> set (received ?s')" using d(8) q by auto
    show "enqueuedToDest ?s' = idOf ?s' ` set (received ?s')"
      unfolding rs im using d(9) by simp
    show "distinct (map (idOf ?s') (received ?s'))"
      unfolding rs io by (rule d(10))
    show "\<forall>j \<in> reached ?s'. Status (batches ?s' ! j) = ''buffered'' \<or> j \<in> set (received ?s')"
    proof
      fix j assume j: "j \<in> reached ?s'"
      show "Status (batches ?s' ! j) = ''buffered'' \<or> j \<in> set (received ?s')"
      proof (cases "j = i")
        case True
        with irec show ?thesis by simp
      next
        case False
        then have "batches ?s' ! j = batches s ! j" by simp
        with d(11) j show ?thesis by simp
      qed
    qed
  qed
qed

lemma inv_destFinish:
  assumes inv: "dispatch_inv bs s" and en: "i \<in> set (destBusy s)"
    and w: "destWorkerStep config ee rf bm (batches s ! i) = (r, b', bm')"
  shows "dispatch_inv bs (destFinish i b' s)"
proof -
  note d = dispatch_invD [OF inv]
  let ?s' = "destFinish i b' s"
  have id: "ID b' = ID (batches s ! i)" by (rule destWorkerStep_ID [OF w])
  have irec: "i \<in> set (received s)" using d(8) en by auto
  have m: "map ID (batches ?s') = map ID (batches s)"
    using id by (simp add: destFinish_def map_ID_update)
  have rl: "\<forall>j \<in> set (received s). j < length (batches s)" using d(7) d(2) by auto
  have io: "map (idOf ?s') (received s) = map (idOf s) (received s)"
    by (rule idOf_image_cong [OF m rl])
  have im: "idOf ?s' ` set (received s) = idOf s ` set (received s)"
    using io by (metis set_map)
  have rs: "received ?s' = received s" by (simp add: destFinish_def)
  show ?thesis
  proof (rule dispatch_invI)
    show "map ID (batches ?s') = map ID bs" using m d(1) by simp
    show "fed ?s' \<le> length bs" using d(3) by (simp add: destFinish_def)
    show "distinct (sourceQueue ?s' @ sourceBusy ?s')" using d(4) by (simp add: destFinish_def)
    show "\<forall>j \<in> set (sourceQueue ?s' @ sourceBusy ?s'). j < fed ?s' \<and> j \<notin> reached ?s'"
      using d(5) by (simp add: destFinish_def)
    show "\<forall>j \<in> reached ?s'. j < fed ?s'" using d(6) by (simp add: destFinish_def)
    show "\<forall>j \<in> set (destQueue ?s' @ destBusy ?s' @ received ?s'). j < length bs"
      using d(7) by (auto simp: destFinish_def dest: in_remove1D)
    show "set (destQueue ?s' @ destBusy ?s') \<subseteq> set (received ?s')"
      using d(8) by (auto simp: destFinish_def dest: in_remove1D)
    show "enqueuedToDest ?s' = idOf ?s' ` set (received ?s')"
      unfolding rs im using d(9) by (simp add: destFinish_def)
    show "distinct (map (idOf ?s') (received ?s'))"
      unfolding rs io by (rule d(10))
    show "\<forall>j \<in> reached ?s'. Status (batches ?s' ! j) = ''buffered'' \<or> j \<in> set (received ?s')"
    proof
      fix j assume j: "j \<in> reached ?s'"
      show "Status (batches ?s' ! j) = ''buffered'' \<or> j \<in> set (received ?s')"
      proof (cases "j = i")
        case True
        with irec rs show ?thesis by simp
      next
        case False
        then have "batches ?s' ! j = batches s ! j" by (simp add: destFinish_def)
        moreover have "j \<in> reached s" using j by (simp add: destFinish_def)
        ultimately show ?thesis using d(11) rs by simp
      qed
    qed
  qed
qed

lemma inv_step:
  assumes "step s s'" "dispatch_inv bs s"
  shows "dispatch_inv bs s'"
  using assms
proof (cases rule: step.cases)
  case Feed
  with assms(2) show ?thesis by (simp add: inv_feed)
next
  case SourceTake
  with assms(2) show ?thesis by (simp add: inv_sourceTake)
next
  case (SourceFinish i env mid bm r b' bm')
  with assms(2) show ?thesis by (simp add: inv_sourceFinish)
next
  case (Poll i)
  with assms(2) show ?thesis by (simp add: inv_pollBatch)
next
  case PollerReturn
  with assms(2) show ?thesis by (simp add: inv_pollerReturn)
next
  case DestTake
  with assms(2) show ?thesis by (simp add: inv_destTake)
next
  case (DestFinish i config extractError removeErr bm r b' bm')
  with assms(2) show ?thesis by (simp add: inv_destFinish)
qed

lemma reachable_inv: "reachable bs s \<Longrightarrow> dispatch_inv bs s"
  by (induction rule: reachable.induct) (simp_all add: dispatch_inv_initial inv_step)

lemma distinct_count_list_1: "distinct xs \<Longrightarrow> x \<in> set xs \<Longrightarrow> count_list xs x = 1"
  by (induction xs) (auto simp: count_list_0_iff)

lemma pollBatch_keeps:
  "length (batches (pollBatch i s)) = length (batches s)"
  "pollerDone (pollBatch i s) = pollerDone s"
  by (simp_all add: pollBatch_def Let_def)

lemma reachable_polls:
  assumes "reachable bs s" "\<not> pollerDone s" "\<forall>i \<in> set is. i < length (batches s)"
  shows "reachable bs (foldl (\<lambda>s i. pollBatch i s) s is)"
  using assms
proof (induction "is" arbitrary: s)
  case Nil
  then show ?case by simp
next
  case (Cons i "is")
  have "step s (pollBatch i s)" using Cons.prems by (intro step.Poll) simp_all
  then have "reachable bs (pollBatch i s)" using Cons.prems(1) by (rule reachable.Step [rotated])
  then show ?case using Cons.prems by (simp add: Cons.IH pollBatch_keeps)
qed

lemma reachable_pollTick:
  "reachable bs s \<Longrightarrow> \<not> pollerDone s \<Longrightarrow> reachable bs (pollTick s)"
  unfolding pollTick_def by (rule reachable_polls) simp_all


text \<open>
  C1. In every state that a run of \<open>coordinateTransfer\<close> can reach, the batches
  sent into the destination queue are pairwise distinct and have pairwise distinct
  ids, so each batch id is enqueued at most once, and the keys of \<open>enqueuedToDest\<close>
  are exactly the ids sent. The poller's loop body sends a batch only when its status
  is \<open>buffered\<close> and its id is not a key of the map, and then stores the id; a whole
  pass of the loop is a sequence of steps of the run. Every batch that a source worker
  set to \<open>buffered\<close> and that is no longer \<open>buffered\<close> has been sent exactly once;
  in particular, when every batch is terminal (\<open>completed\<close> or \<open>failed\<close>), each
  batch that reached \<open>buffered\<close> has been sent exactly once.
\<close>

theorem C1_exactly_once_dispatch:
  assumes "reachable bs s"
  shows "distinct (map (idOf s) (received s))
    \<and> distinct (received s)
    \<and> enqueuedToDest s = idOf s ` set (received s)
    \<and> (\<forall>i \<in> reached s. Status (batches s ! i) \<noteq> ''buffered'' \<longrightarrow> count_list (received s) i = 1)
    \<and> (allBatchesCompleted s \<longrightarrow> (\<forall>i \<in> reached s. count_list (received s) i = 1))
    \<and> (\<not> pollerDone s \<longrightarrow> reachable bs (pollTick s))
    \<and> (\<forall>i. pollBatch i s =
          (if Status (batches s ! i) = ''buffered'' \<and> idOf s i \<notin> enqueuedToDest s
           then s\<lparr>destQueue := destQueue s @ [i],
                  enqueuedToDest := insert (idOf s i) (enqueuedToDest s),
                  received := received s @ [i]\<rparr>
           else s))"
proof -
  note d = dispatch_invD [OF reachable_inv [OF assms]]
  have a: "distinct (map (idOf s) (received s))" by (rule d(10))
  have b: "distinct (received s)" using a by (simp add: distinct_map)
  have c: "enqueuedToDest s = idOf s ` set (received s)" by (rule d(9))
  have e: "\<forall>i \<in> reached s. Status (batches s ! i) \<noteq> ''buffered'' \<longrightarrow> count_list (received s) i = 1"
  proof (intro ballI impI)
    fix i assume "i \<in> reached s" "Status (batches s ! i) \<noteq> ''buffered''"
    with d(11) have "i \<in> set (received s)" by auto
    with b show "count_list (received s) i = 1" by (rule distinct_count_list_1)
  qed
  have f: "allBatchesCompleted s \<longrightarrow> (\<forall>i \<in> reached s. count_list (received s) i = 1)"
  proof (intro ballI impI)
    fix i assume all: "allBatchesCompleted s" and i: "i \<in> reached s"
    have "i < length (batches s)" using d(6) d(3) d(2) i by auto
    then have "batches s ! i \<in> set (batches s)" by simp
    with all have "Status (batches s ! i) = ''completed'' \<or> Status (batches s ! i) = ''failed''"
      by (auto simp: allBatchesCompleted_def list_all_iff)
    then have "Status (batches s ! i) \<noteq> ''buffered''" by auto
    with e i show "count_list (received s) i = 1" by blast
  qed
  have g: "\<not> pollerDone s \<longrightarrow> reachable bs (pollTick s)"
    using assms by (simp add: reachable_pollTick)
  have h: "\<forall>i. pollBatch i s =
          (if Status (batches s ! i) = ''buffered'' \<and> idOf s i \<notin> enqueuedToDest s
           then s\<lparr>destQueue := destQueue s @ [i],
                  enqueuedToDest := insert (idOf s i) (enqueuedToDest s),
                  received := received s @ [i]\<rparr>
           else s)"
    by (simp add: pollBatch_def Let_def idOf_def)
  from a b c e f g h show ?thesis by (intro conjI)
qed

lemma demo_buffered_value:
  "demo_buffered =
     \<lparr>batches = [buffered60], fed = 1, sourceQueue = [], sourceBusy = [], destQueue = [],
      destBusy = [], enqueuedToDest = {}, pollerDone = False, received = [], reached = {0}\<rparr>"
  by (simp add: initial_def feed_def sourceTake_def sourceFinish_def demo_buffered_def
      buffered60_def)

lemma demo_polled_value:
  "pollTick demo_buffered =
     \<lparr>batches = [buffered60], fed = 1, sourceQueue = [], sourceBusy = [], destQueue = [0],
      destBusy = [], enqueuedToDest = {0}, pollerDone = False, received = [0], reached = {0}\<rparr>"
  by (simp add: demo_buffered_value pollTick_def pollBatch_def Let_def buffered60_def batch60_def)

lemma demo_polled_again: "pollTick demo_polled = demo_polled"
  by (simp add: demo_polled_def pollTick_def pollBatch_def Let_def buffered60_def batch60_def)

lemma demo_polled_twice: "pollTick (pollTick demo_buffered) = demo_polled"
  by (simp only: demo_polled_value demo_polled_def [symmetric] demo_polled_again)

lemma demo_run_value:
  "demo_run =
     \<lparr>batches = [buffered60\<lparr>Status := ''completed''\<rparr>], fed = 1, sourceQueue = [],
      sourceBusy = [], destQueue = [], destBusy = [], enqueuedToDest = {0}, pollerDone = False,
      received = [0], reached = {0}\<rparr>"
  unfolding demo_run_def demo_polled_twice
  by (simp add: demo_polled_def destTake_def destFinish_def SetStatus_def)

lemma demo_reachable: "reachable [batch60] demo_run"
proof -
  let ?s0 = "initial [batch60]"
  let ?s1 = "feed ?s0"
  let ?s2 = "sourceTake ?s1"
  have r0: "reachable [batch60] ?s0" by (rule reachable.Start)
  have "step ?s0 ?s1" by (rule step.Feed) (simp add: initial_def)
  with r0 have r1: "reachable [batch60] ?s1" by (rule reachable.Step)
  have "step ?s1 ?s2" by (rule step.SourceTake) (simp add: initial_def feed_def)
  with r1 have r2: "reachable [batch60] ?s2" by (rule reachable.Step)
  have b2: "batches ?s2 ! 0 = batch60\<lparr>Status := ''downloading''\<rparr>"
    and busy: "0 \<in> set (sourceBusy ?s2)"
    by (simp_all add: initial_def feed_def sourceTake_def SetStatus_def)
  have w: "sourceWorkerStep (archive_env 45) ''m'' small_buffer (batches ?s2 ! 0)
      = (Returned None, buffered60, small_buffer\<lparr>currentSize := 45\<rparr>)"
    unfolding b2 by (simp add: worker_eval buffered60_def)
  have "step ?s2 (sourceFinish 0 buffered60 ?s2)"
    by (rule step.SourceFinish [OF busy w])
  with r2 have r3: "reachable [batch60] demo_buffered"
    unfolding demo_buffered_def by (rule reachable.Step)
  have np: "\<not> pollerDone demo_buffered" by (simp add: demo_buffered_value)
  have r4: "reachable [batch60] (pollTick demo_buffered)"
    by (rule reachable_pollTick [OF r3 np])
  have np': "\<not> pollerDone (pollTick demo_buffered)" by (simp add: demo_polled_value)
  have r5: "reachable [batch60] (pollTick (pollTick demo_buffered))"
    by (rule reachable_pollTick [OF r4 np'])
  let ?s5 = "pollTick (pollTick demo_buffered)"
  have "step ?s5 (destTake ?s5)"
    unfolding demo_polled_twice by (rule step.DestTake) (simp add: demo_polled_def)
  with r5 have r6: "reachable [batch60] (destTake ?s5)" by (rule reachable.Step)
  have b6: "batches (destTake ?s5) ! 0 = buffered60\<lparr>Status := ''uploading''\<rparr>"
    and dbusy: "0 \<in> set (destBusy (destTake ?s5))"
    unfolding demo_polled_twice
    by (simp_all add: demo_polled_def destTake_def SetStatus_def)
  have dw: "destWorkerStep DefaultConfig None None (small_buffer\<lparr>currentSize := 45\<rparr>)
        (batches (destTake ?s5) ! 0)
      = (None, buffered60\<lparr>Status := ''completed''\<rparr>, small_buffer\<lparr>currentSize := 0\<rparr>)"
    unfolding b6
    by (simp add: destWorkerStep_def DefaultConfig_def DeleteBatch_def ReleaseSpace_def
        SetStatus_def small_buffer_def buffered60_def batch60_def Let_def i64_def)
  have "step (destTake ?s5) (destFinish 0 (buffered60\<lparr>Status := ''completed''\<rparr>) (destTake ?s5))"
    by (rule step.DestFinish [OF dbusy dw])
  with r6 show ?thesis unfolding demo_run_def by (rule reachable.Step)
qed


theorem C1_exactly_once_dispatch_witness:
  "reachable [batch60] demo_run
   \<and> allBatchesCompleted demo_run
   \<and> reached demo_run = {0}
   \<and> received demo_run = [0]
   \<and> count_list (received demo_run) 0 = 1
   \<and> enqueuedToDest demo_run = {0}"
proof -
  have all: "allBatchesCompleted demo_run"
    by (simp add: demo_run_value allBatchesCompleted_def)
  have re: "reached demo_run = {0}" "received demo_run = [0]" "enqueuedToDest demo_run = {0}"
    by (simp_all add: demo_run_value)
  have "\<forall>i \<in> reached demo_run. count_list (received demo_run) i = 1"
    using C1_exactly_once_dispatch [OF demo_reachable] all by blast
  then have "count_list (received demo_run) 0 = 1" using re(1) by simp
  with demo_reachable all re show ?thesis by simp
qed

end
